theory Spec2Isabelle
  imports Main "HOL-Library.Word"
begin

unbundle bit_operations_syntax

chapter \<open>libosmium: segments, OPL fields, PBF framing and location indexes\<close>

section \<open>Locations and node references\<close>

text \<open>
  \<^verbatim>\<open>osmium::Location\<close> holds two signed 32-bit coordinates. Its header
  (\<^verbatim>\<open>osmium/osm/location.hpp\<close>) is used by \<^verbatim>\<open>segment.hpp\<close> through
  \<^verbatim>\<open>x()\<close>, \<^verbatim>\<open>y()\<close>, \<^verbatim>\<open>==\<close> and \<^verbatim>\<open><\<close>. Coordinates are
  32-bit words read as two's complement.
\<close>

type_synonym int32_t = "32 word"
type_synonym int64_t = "64 word"

record Location =
  m_x :: int32_t
  m_y :: int32_t

text \<open>
  Modelled from the spec: the undefined Location (section 3, both components are
  \<^verbatim>\<open>INT32_MIN\<close>); it is the value of \<^verbatim>\<open>osmium::Location{}\<close>, declared in
  the location header.
\<close>

definition undefined_location :: Location where
  "undefined_location = \<lparr> m_x = 0x80000000, m_y = 0x80000000 \<rparr>"

text \<open>
  Modelled from the spec: the ordering of Locations is lexicographic on (x, y)
  (section 3); the operator is declared in the location header. The comparisons are
  signed.
\<close>

definition location_less :: "Location \<Rightarrow> Location \<Rightarrow> bool" where
  "location_less lhs rhs =
     ((m_x lhs = m_x rhs \<and> m_y lhs <s m_y rhs) \<or> m_x lhs <s m_x rhs)"

definition location_le :: "Location \<Rightarrow> Location \<Rightarrow> bool" where
  "location_le lhs rhs = (\<not> location_less rhs lhs)"

record NodeRef =
  ref :: int64_t
  location :: Location

section \<open>NodeRefSegment (\<^verbatim>\<open>osmium/area/segment.hpp\<close>)\<close>

text \<open>
  The role is a C string and the way a pointer to the originating way; both are
  carried along unchanged, so the role is a string and the way an opaque handle.
\<close>

record NodeRefSegment =
  m_first :: NodeRef
  m_second :: NodeRef
  m_role :: string
  m_way :: nat

definition swap_locations :: "NodeRefSegment \<Rightarrow> NodeRefSegment" where
  "swap_locations s = s\<lparr> m_first := m_second s, m_second := m_first s \<rparr>"

text \<open>The four-argument constructor: copy the members, then swap when \<^verbatim>\<open>nr2 < nr1\<close>.\<close>

definition mk_segment :: "NodeRef \<Rightarrow> NodeRef \<Rightarrow> string \<Rightarrow> nat \<Rightarrow> NodeRefSegment" where
  "mk_segment nr1 nr2 role way =
     (let s = \<lparr> m_first = nr1, m_second = nr2, m_role = role, m_way = way \<rparr>
      in if location_less (location nr2) (location nr1) then swap_locations s else s)"

definition first :: "NodeRefSegment \<Rightarrow> NodeRef" where
  "first s = m_first s"

definition second :: "NodeRefSegment \<Rightarrow> NodeRef" where
  "second s = m_second s"

text \<open>
  \<^verbatim>\<open>to_left_of\<close> declares
  \<^verbatim>\<open>auto mm = std::minmax(first().location(), second().location(), comp)\<close>.
  \<^verbatim>\<open>std::minmax\<close> takes its two arguments by reference and returns a pair of
  references to them, so \<^verbatim>\<open>mm\<close> is a pair of references, and it is read in the
  statements that follow. What the two arguments are depends on
  \<^verbatim>\<open>NodeRef::location()\<close>, declared in \<^verbatim>\<open>osmium/osm/noderef.hpp\<close>, which is
  not among the sources at hand: called on a const \<^verbatim>\<open>NodeRef\<close> it hands out either a
  reference to the Location stored there or a copy of it. Which of the two is a parameter
  of the model. A copy is a temporary object, destroyed at the end of the statement that
  creates it.
\<close>

datatype location_accessor =
    by_reference
  | by_value

text \<open>
  The Location objects \<^verbatim>\<open>to_left_of\<close> deals with: the two stored in the segment and
  the temporaries of a statement. A store gives the value of every object that is alive.
\<close>

datatype object =
    stored_first
  | stored_second
  | temporary nat

type_synonym store = "object \<Rightarrow> Location option"

definition segment_store :: "NodeRefSegment \<Rightarrow> store" where
  "segment_store s =
     (\<lambda>obj. case obj of
               stored_first \<Rightarrow> Some (location (first s))
             | stored_second \<Rightarrow> Some (location (second s))
             | temporary n \<Rightarrow> None)"

text \<open>
  The call \<^verbatim>\<open>location()\<close> on the node reference stored at \<open>member\<close>: the object
  the result denotes, which is the member itself or the \<open>n\<close>-th temporary of the
  statement, holding a copy.
\<close>

definition location_call ::
  "location_accessor \<Rightarrow> object \<Rightarrow> nat \<Rightarrow> store \<Rightarrow> object \<times> store" where
  "location_call acc member n st =
     (case acc of
        by_reference \<Rightarrow> (member, st)
      | by_value \<Rightarrow> (temporary n, st(temporary n := st member)))"

text \<open>The end of a statement: its temporaries are destroyed.\<close>

definition destroy_temporaries :: "store \<Rightarrow> store" where
  "destroy_temporaries st = (\<lambda>obj. case obj of temporary n \<Rightarrow> None | _ \<Rightarrow> st obj)"

text \<open>
  \<^verbatim>\<open>std::minmax(a, b, comp)\<close> returns \<^verbatim>\<open>(b, a)\<close> when \<^verbatim>\<open>comp(b, a)\<close> and
  \<^verbatim>\<open>(a, b)\<close> otherwise; the comparator of \<^verbatim>\<open>to_left_of\<close> is \<^verbatim>\<open>a.y() < b.y()\<close>.
  \<open>minmax_y\<close> is the function on values, \<open>minmax_refs\<close> the one on references that
  \<^verbatim>\<open>to_left_of\<close> calls; a read of an object that is not alive has no result.
\<close>

definition minmax_y :: "Location \<Rightarrow> Location \<Rightarrow> Location \<times> Location" where
  "minmax_y a b = (if m_y b <s m_y a then (b, a) else (a, b))"

definition minmax_refs :: "store \<Rightarrow> object \<Rightarrow> object \<Rightarrow> (object \<times> object) option" where
  "minmax_refs st a b =
     (case st a of
        None \<Rightarrow> None
      | Some va \<Rightarrow>
          (case st b of
             None \<Rightarrow> None
           | Some vb \<Rightarrow> Some (if m_y vb <s m_y va then (b, a) else (a, b))))"

text \<open>The widening conversions \<^verbatim>\<open>int64_t ax = mm.first.x()\<close> are sign extensions.\<close>

definition to_int64 :: "int32_t \<Rightarrow> int64_t" where
  "to_int64 v = scast v"

text \<open>
  The last line of \<^verbatim>\<open>to_left_of\<close>; the 64-bit operations wrap in the model (in C++
  a signed overflow is undefined).
\<close>

definition cross_product ::
  "int64_t \<Rightarrow> int64_t \<Rightarrow> int64_t \<Rightarrow> int64_t \<Rightarrow> int64_t \<Rightarrow> int64_t \<Rightarrow> int64_t" where
  "cross_product ax ay bx by lx ly = (bx - ax) * (ly - ay) - (by - ay) * (lx - ax)"

text \<open>
  \<^verbatim>\<open>to_left_of\<close>. The result is \<open>None\<close> when the function reads an object after
  the end of its lifetime: the behaviour is undefined there and the source fixes no
  result. The comparison with the endpoints comes first and reads no reference that is
  kept. The temporaries of the statement that declares \<^verbatim>\<open>mm\<close> are destroyed before
  the guard reads \<^verbatim>\<open>mm.first\<close> and, when the first test fails, \<^verbatim>\<open>mm.second\<close>.
\<close>

definition to_left_of :: "location_accessor \<Rightarrow> NodeRefSegment \<Rightarrow> Location \<Rightarrow> bool option" where
  "to_left_of acc s loc =
     (if location (first s) = loc \<or> location (second s) = loc then Some False
      else
        (let (a, st) = location_call acc stored_first 0 (segment_store s);
             (b, st) = location_call acc stored_second 1 st
         in case minmax_refs st a b of
              None \<Rightarrow> None
            | Some mm \<Rightarrow>
                (let st = destroy_temporaries st in
                 case st (fst mm) of
                   None \<Rightarrow> None
                 | Some mm_first \<Rightarrow>
                     if m_y loc \<le>s m_y mm_first then Some False
                     else
                       (case st (snd mm) of
                          None \<Rightarrow> None
                        | Some mm_second \<Rightarrow>
                            if m_y mm_second <s m_y loc
                               \<or> m_x loc <s m_x (location (first s))
                            then Some False
                            else
                              (let ax = to_int64 (m_x mm_first);
                                   bx = to_int64 (m_x mm_second);
                                   lx = to_int64 (m_x loc);
                                   ay = to_int64 (m_y mm_first);
                                   by = to_int64 (m_y mm_second);
                                   ly = to_int64 (m_y loc)
                               in Some (cross_product ax ay bx by lx ly \<le>s 0))))))"

text \<open>\<^verbatim>\<open>operator==\<close> on segments.\<close>

definition segment_eq :: "NodeRefSegment \<Rightarrow> NodeRefSegment \<Rightarrow> bool" where
  "segment_eq lhs rhs =
     (location (first lhs) = location (first rhs)
      \<and> location (second lhs) = location (second rhs))"

text \<open>Locations and node references built from raw coordinates, as the examples do.\<close>

definition loc :: "int \<Rightarrow> int \<Rightarrow> Location" where
  "loc a b = \<lparr> m_x = word_of_int a, m_y = word_of_int b \<rparr>"

definition node_ref :: "int \<Rightarrow> Location \<Rightarrow> NodeRef" where
  "node_ref i l = \<lparr> ref = word_of_int i, location = l \<rparr>"

text \<open>
  The predicate of \<^verbatim>\<open>to_left_of\<close> as the specification words it: the third test
  of the guard reads the x coordinate of \<open>a\<close>, the endpoint with the smaller y.
\<close>

definition to_left_of_spec :: "NodeRefSegment \<Rightarrow> Location \<Rightarrow> bool" where
  "to_left_of_spec s p =
     (if p = location (first s) \<or> p = location (second s) then False
      else
        (let (a, b) = minmax_y (location (first s)) (location (second s)) in
         if m_y p \<le>s m_y a \<or> m_y b <s m_y p \<or> m_x p <s m_x a then False
         else cross_product (to_int64 (m_x a)) (to_int64 (m_y a)) (to_int64 (m_x b))
                (to_int64 (m_y b)) (to_int64 (m_x p)) (to_int64 (m_y p)) \<le>s 0))"

subsection \<open>Ordering facts\<close>

lemma location_less_sint:
  "location_less a b \<longleftrightarrow>
     (sint (m_x a) < sint (m_x b) \<or> (sint (m_x a) = sint (m_x b) \<and> sint (m_y a) < sint (m_y b)))"
  by (auto simp: location_less_def word_sless_alt dest: signed_word_eqI)

lemma location_eq_sint:
  "(a :: Location) = b \<longleftrightarrow> sint (m_x a) = sint (m_x b) \<and> sint (m_y a) = sint (m_y b)"
  by (cases a, cases b) (auto dest: signed_word_eqI)

lemma minmax_y_ordered:
  "m_y (fst (minmax_y a b)) \<le>s m_y (snd (minmax_y a b))"
  by (auto simp: minmax_y_def word_sle_eq word_sless_alt)

lemma minmax_y_endpoints:
  "{fst (minmax_y a b), snd (minmax_y a b)} = {a, b}"
  by (auto simp: minmax_y_def)

lemma mk_segment_first_le_second:
  "location_le (location (first (mk_segment nr1 nr2 role way)))
               (location (second (mk_segment nr1 nr2 role way)))"
  by (auto simp: mk_segment_def Let_def swap_locations_def first_def second_def
      location_le_def location_less_sint)

lemma mk_segment_first_x:
  "m_x (location (first (mk_segment nr1 nr2 role way)))
     \<le>s m_x (location (second (mk_segment nr1 nr2 role way)))"
  by (auto simp: mk_segment_def Let_def swap_locations_def first_def second_def
      location_less_sint word_sle_eq)

lemma mk_segment_endpoints:
  "{location (first (mk_segment nr1 nr2 role way)),
    location (second (mk_segment nr1 nr2 role way))} = {location nr1, location nr2}"
  by (auto simp: mk_segment_def Let_def swap_locations_def first_def second_def)

lemma segment_eq_mk:
  "segment_eq (mk_segment a b r w) (mk_segment c d r' w') \<longleftrightarrow>
     (location a = location c \<and> location b = location d)
     \<or> (location a = location d \<and> location b = location c)"
  by (auto simp: segment_eq_def mk_segment_def Let_def swap_locations_def first_def second_def
      location_less_sint location_eq_sint)

subsection \<open>The point-side predicate\<close>

text \<open>
  At an endpoint the answer is false whatever \<^verbatim>\<open>location()\<close> hands out. Elsewhere,
  with references to the stored locations the pair \<^verbatim>\<open>mm\<close> is the pair of endpoints
  ordered by y; with copies it refers to two objects that are gone when it is read.
\<close>

lemma to_left_of_endpoint:
  "to_left_of acc s (location (first s)) = Some False"
  "to_left_of acc s (location (second s)) = Some False"
  by (simp_all add: to_left_of_def)

lemma to_left_of_by_reference:
  "to_left_of by_reference s p =
     Some (if location (first s) = p \<or> location (second s) = p then False
           else
             (let mm = minmax_y (location (first s)) (location (second s)) in
              if m_y p \<le>s m_y (fst mm) \<or> m_y (snd mm) <s m_y p
                 \<or> m_x p <s m_x (location (first s))
              then False
              else cross_product (to_int64 (m_x (fst mm))) (to_int64 (m_y (fst mm)))
                     (to_int64 (m_x (snd mm))) (to_int64 (m_y (snd mm)))
                     (to_int64 (m_x p)) (to_int64 (m_y p)) \<le>s 0))"
  by (simp add: to_left_of_def location_call_def segment_store_def minmax_refs_def
      destroy_temporaries_def minmax_y_def Let_def)

lemma to_left_of_by_value:
  "to_left_of by_value s p =
     (if location (first s) = p \<or> location (second s) = p then Some False else None)"
  by (simp add: to_left_of_def location_call_def segment_store_def minmax_refs_def
      destroy_temporaries_def Let_def)

text \<open>
  C2, as stated: for every segment and point, \<^verbatim>\<open>to_left_of\<close> is false at an endpoint,
  false when \<open>a.y \<ge> p.y\<close> or \<open>b.y < p.y\<close> or \<open>a.x > p.x\<close> for the endpoints
  \<open>(a, b)\<close> ordered by y, and otherwise true iff the 64-bit cross product is at most 0.
  This fails in two ways. The code tests \<^verbatim>\<open>first().location().x() > loc.x()\<close>, the x
  of the canonical first endpoint, not the x of \<open>a\<close>: for the segment built from (0,10)
  and (10,0) the endpoint with the smaller y is (10,0), and at the point (5,8) the code
  answers true on the stored locations (the segment passes x = 2 at that height) while the
  stated guard answers false. And when \<^verbatim>\<open>location()\<close> hands out copies, the code
  reads \<^verbatim>\<open>mm\<close> after the two copies are destroyed, and the source fixes no answer
  at all.
\<close>

theorem to_left_of_spec_counterexample:
  "to_left_of by_reference
       (mk_segment (node_ref 1 (loc 0 10)) (node_ref 2 (loc 10 0)) ''outer'' 0) (loc 5 8)
     = Some True
   \<and> to_left_of by_value
       (mk_segment (node_ref 1 (loc 0 10)) (node_ref 2 (loc 10 0)) ''outer'' 0) (loc 5 8)
     = None
   \<and> to_left_of_spec
       (mk_segment (node_ref 1 (loc 0 10)) (node_ref 2 (loc 10 0)) ''outer'' 0) (loc 5 8)
     = False"
  by (simp add: to_left_of_by_reference to_left_of_by_value to_left_of_spec_def mk_segment_def
      node_ref_def loc_def location_less_def swap_locations_def first_def second_def
      minmax_y_def to_int64_def cross_product_def word_sless_alt word_sle_eq)

text \<open>
  C2, amended: for every segment \<open>s\<close> and point \<open>p\<close>, \<^verbatim>\<open>to_left_of\<close> is false when
  \<open>p\<close> is the location of either endpoint, whatever \<^verbatim>\<open>location()\<close> hands out.
  Otherwise, when the pair \<^verbatim>\<open>mm\<close> refers to the locations stored in the segment
  (\<^verbatim>\<open>location()\<close> handing out references), with \<open>(a, b)\<close> the endpoints ordered
  by y, it is false when \<open>a.y \<ge> p.y\<close> or \<open>b.y < p.y\<close> or \<open>first().x > p.x\<close>, and
  otherwise true iff the signed 64-bit cross product is at most 0. \<open>(a, b)\<close> are the two
  endpoints with \<open>a.y \<le> b.y\<close>, and after construction \<open>first()\<close> is the endpoint
  whose x is not larger than the other's. Nothing is said of a point that is not an
  endpoint when \<^verbatim>\<open>location()\<close> hands out copies.
\<close>

theorem to_left_of_first_x:
  "to_left_of acc s (location (first s)) = Some False
   \<and> to_left_of acc s (location (second s)) = Some False
   \<and> to_left_of by_reference s p =
       Some (let a = fst (minmax_y (location (first s)) (location (second s)));
                 b = snd (minmax_y (location (first s)) (location (second s)))
             in if location (first s) = p \<or> location (second s) = p then False
                else if m_y p \<le>s m_y a \<or> m_y b <s m_y p \<or> m_x p <s m_x (location (first s))
                then False
                else cross_product (to_int64 (m_x a)) (to_int64 (m_y a)) (to_int64 (m_x b))
                       (to_int64 (m_y b)) (to_int64 (m_x p)) (to_int64 (m_y p)) \<le>s 0)
   \<and> m_y (fst (minmax_y (location (first s)) (location (second s))))
        \<le>s m_y (snd (minmax_y (location (first s)) (location (second s))))
   \<and> {fst (minmax_y (location (first s)) (location (second s))),
       snd (minmax_y (location (first s)) (location (second s)))}
        = {location (first s), location (second s)}
   \<and> m_x (location (first (mk_segment nr1 nr2 role way)))
        \<le>s m_x (location (second (mk_segment nr1 nr2 role way)))"
proof -
  have "to_left_of by_reference s p =
       Some (let a = fst (minmax_y (location (first s)) (location (second s)));
                 b = snd (minmax_y (location (first s)) (location (second s)))
             in if location (first s) = p \<or> location (second s) = p then False
                else if m_y p \<le>s m_y a \<or> m_y b <s m_y p \<or> m_x p <s m_x (location (first s))
                then False
                else cross_product (to_int64 (m_x a)) (to_int64 (m_y a)) (to_int64 (m_x b))
                       (to_int64 (m_y b)) (to_int64 (m_x p)) (to_int64 (m_y p)) \<le>s 0)"
    by (simp add: to_left_of_by_reference Let_def)
  then show ?thesis
    by (simp only: to_left_of_endpoint minmax_y_ordered minmax_y_endpoints mk_segment_first_x
        simp_thms)
qed

text \<open>
  C3, as stated: for the segment (0,0)-(10,10), \<^verbatim>\<open>to_left_of((5,5))\<close> is false,
  \<^verbatim>\<open>to_left_of((5,6))\<close> is true and \<^verbatim>\<open>to_left_of((-1,5))\<close> is false. On the stored
  locations the code gives true at (5,5), where the cross product is 0, and false at
  (5,6), where it is 10; on copies it reads \<^verbatim>\<open>mm\<close> after their destruction at each
  of the three points. Either way the three stated answers are not what the code fixes.
\<close>

theorem to_left_of_diagonal_counterexample:
  "\<not> (to_left_of by_reference
          (mk_segment (node_ref 1 (loc 0 0)) (node_ref 2 (loc 10 10)) ''outer'' 0) (loc 5 5)
        = Some False
      \<and> to_left_of by_reference
          (mk_segment (node_ref 1 (loc 0 0)) (node_ref 2 (loc 10 10)) ''outer'' 0) (loc 5 6)
        = Some True
      \<and> to_left_of by_reference
          (mk_segment (node_ref 1 (loc 0 0)) (node_ref 2 (loc 10 10)) ''outer'' 0) (loc (-1) 5)
        = Some False)
   \<and> \<not> (to_left_of by_value
          (mk_segment (node_ref 1 (loc 0 0)) (node_ref 2 (loc 10 10)) ''outer'' 0) (loc 5 5)
        = Some False
      \<and> to_left_of by_value
          (mk_segment (node_ref 1 (loc 0 0)) (node_ref 2 (loc 10 10)) ''outer'' 0) (loc 5 6)
        = Some True
      \<and> to_left_of by_value
          (mk_segment (node_ref 1 (loc 0 0)) (node_ref 2 (loc 10 10)) ''outer'' 0) (loc (-1) 5)
        = Some False)"
  by (simp add: to_left_of_by_reference to_left_of_by_value mk_segment_def node_ref_def loc_def
      location_less_def swap_locations_def first_def second_def minmax_y_def to_int64_def
      cross_product_def word_sless_alt word_sle_eq)

text \<open>
  C3, amended: for the segment (0,0)-(10,10), when the pair \<^verbatim>\<open>mm\<close> refers to the
  locations stored in the segment (\<^verbatim>\<open>location()\<close> handing out references),
  \<^verbatim>\<open>to_left_of((5,5))\<close> is true (a point on the segment has cross product 0),
  \<^verbatim>\<open>to_left_of((5,6))\<close> is false (the segment passes x = 6 at that height, to the
  right of the point), and \<^verbatim>\<open>to_left_of((-1,5))\<close> is false.
\<close>

theorem to_left_of_diagonal:
  "to_left_of by_reference
       (mk_segment (node_ref 1 (loc 0 0)) (node_ref 2 (loc 10 10)) ''outer'' 0) (loc 5 5)
     = Some True
   \<and> to_left_of by_reference
       (mk_segment (node_ref 1 (loc 0 0)) (node_ref 2 (loc 10 10)) ''outer'' 0) (loc 5 6)
     = Some False
   \<and> to_left_of by_reference
       (mk_segment (node_ref 1 (loc 0 0)) (node_ref 2 (loc 10 10)) ''outer'' 0) (loc (-1) 5)
     = Some False"
  by (simp add: to_left_of_by_reference mk_segment_def node_ref_def loc_def
      location_less_def swap_locations_def first_def second_def minmax_y_def to_int64_def
      cross_product_def word_sless_alt word_sle_eq)

text \<open>
  The same answers when the coordinates are degrees, stored as multiples of
  \<open>10\<^sup>7\<close>, and the answer at a point to the right of the segment.
\<close>

lemma diagonal_in_degrees:
  "to_left_of by_reference
       (mk_segment (node_ref 1 (loc 0 0)) (node_ref 2 (loc 100000000 100000000)) ''outer'' 0)
       (loc 50000000 50000000) = Some True
   \<and> to_left_of by_reference
       (mk_segment (node_ref 1 (loc 0 0)) (node_ref 2 (loc 100000000 100000000)) ''outer'' 0)
       (loc 50000000 60000000) = Some False
   \<and> to_left_of by_reference
       (mk_segment (node_ref 1 (loc 0 0)) (node_ref 2 (loc 100000000 100000000)) ''outer'' 0)
       (loc (-10000000) 50000000) = Some False
   \<and> to_left_of by_reference
       (mk_segment (node_ref 1 (loc 0 0)) (node_ref 2 (loc 10 10)) ''outer'' 0) (loc 6 5)
     = Some True"
  by (simp add: to_left_of_by_reference mk_segment_def node_ref_def loc_def
      location_less_def swap_locations_def first_def second_def minmax_y_def to_int64_def
      cross_product_def word_sless_alt word_sle_eq)

subsection \<open>Canonical order and equality\<close>

text \<open>
  C9: for every pair of NodeRefs given to the constructor, the segment satisfies
  \<open>first().location() \<le> second().location()\<close> in the lexicographic (x, then y) order,
  and two segments are equal iff their first locations match and their second locations
  match; ids, roles and ways play no part. The last two conjuncts spell that out:
  changing ids, role and way keeps segments equal, and two constructed segments are
  equal exactly when they join the same two locations.
\<close>

theorem segment_canonical:
  "location_le (location (first (mk_segment nr1 nr2 role way)))
               (location (second (mk_segment nr1 nr2 role way)))
   \<and> {location (first (mk_segment nr1 nr2 role way)),
       location (second (mk_segment nr1 nr2 role way))} = {location nr1, location nr2}
   \<and> (segment_eq s t \<longleftrightarrow>
        location (first s) = location (first t) \<and> location (second s) = location (second t))
   \<and> segment_eq s (s\<lparr> m_first := (m_first s)\<lparr> ref := i \<rparr>,
                        m_second := (m_second s)\<lparr> ref := j \<rparr>,
                        m_role := role', m_way := way' \<rparr>)
   \<and> (segment_eq (mk_segment a b r w) (mk_segment c d r' w') \<longleftrightarrow>
        (location a = location c \<and> location b = location d)
        \<or> (location a = location d \<and> location b = location c))"
proof -
  have "segment_eq s (s\<lparr> m_first := (m_first s)\<lparr> ref := i \<rparr>,
                          m_second := (m_second s)\<lparr> ref := j \<rparr>,
                          m_role := role', m_way := way' \<rparr>)"
    by (simp add: segment_eq_def first_def second_def)
  moreover have "segment_eq s t \<longleftrightarrow>
        location (first s) = location (first t) \<and> location (second s) = location (second t)"
    by (simp add: segment_eq_def)
  ultimately show ?thesis
    using mk_segment_first_le_second [of nr1 nr2 role way]
      mk_segment_endpoints [of nr1 nr2 role way] segment_eq_mk [of a b r w c d r' w']
    by blast
qed

section \<open>OPL field parsers (\<^verbatim>\<open>osmium/io/detail/opl_parser_functions.hpp\<close>)\<close>

type_synonym uint32_t = "32 word"

text \<open>
  \<^verbatim>\<open>opl_error\<close> carries its message and the pointer into the line where the fault
  was found; the pointer is the rest of the line from that position. The second
  exception is the one the UTF-8 library raises.
\<close>

datatype opl_exn =
    opl_error string string
  | invalid_code_point uint32_t

text \<open>
  A line is a NUL-terminated C string: \<^verbatim>\<open>*s\<close> is the head of the remaining
  characters, and NUL at their end. \<^verbatim>\<open>++s\<close> is \<open>tl\<close>; the parsers never step
  over the terminator.
\<close>

definition cur :: "string \<Rightarrow> char" where
  "cur s = (case s of [] \<Rightarrow> CHR 0x00 | c # _ \<Rightarrow> c)"

definition ord :: "char \<Rightarrow> int" where
  "ord c = of_char c"

text \<open>
  Modelled from the spec: the escape's value is re-emitted as UTF-8 (section 4.D) by
  \<^verbatim>\<open>utf8::utf32to8\<close> of the bundled UTF-8 library, which is not among the sources
  at hand. A value that is no Unicode scalar (above 10FFFF or a surrogate) makes the
  library raise its own exception.
\<close>

definition is_code_point_valid :: "nat \<Rightarrow> bool" where
  "is_code_point_valid cp = (cp \<le> 0x10FFFF \<and> \<not> (0xD800 \<le> cp \<and> cp \<le> 0xDFFF))"

definition utf8_encode :: "nat \<Rightarrow> string" where
  "utf8_encode cp =
     (if cp < 0x80 then [char_of cp]
      else if cp < 0x800 then [char_of (0xC0 + cp div 0x40), char_of (0x80 + cp mod 0x40)]
      else if cp < 0x10000 then
        [char_of (0xE0 + cp div 0x1000), char_of (0x80 + cp div 0x40 mod 0x40),
         char_of (0x80 + cp mod 0x40)]
      else
        [char_of (0xF0 + cp div 0x40000), char_of (0x80 + cp div 0x1000 mod 0x40),
         char_of (0x80 + cp div 0x40 mod 0x40), char_of (0x80 + cp mod 0x40)])"

definition utf32to8 :: "uint32_t \<Rightarrow> opl_exn + string" where
  "utf32to8 value =
     (if is_code_point_valid (unat value) then Inr (utf8_encode (unat value))
      else Inl (invalid_code_point value))"

text \<open>\<^verbatim>\<open>max_length = sizeof(value) * 2\<close>, with a 32-bit \<^verbatim>\<open>value\<close>.\<close>

definition max_length :: int where
  "max_length = 4 * 2"

text \<open>
  The loop of \<^verbatim>\<open>opl_parse_escaped\<close>, entered at its test \<^verbatim>\<open>++length <= max_length\<close>.
  A successful return gives the new position and the extended result.
\<close>

function opl_parse_escaped_loop ::
  "int \<Rightarrow> string \<Rightarrow> uint32_t \<Rightarrow> string \<Rightarrow> opl_exn + (string \<times> string)" where
  "opl_parse_escaped_loop len s value result =
     (let len = len + 1 in
      if len \<le> max_length then
        if cur s = CHR 0x00 then Inl (opl_error ''eol'' s)
        else if cur s = CHR ''%'' then
          (case utf32to8 value of
             Inl e \<Rightarrow> Inl e
           | Inr bytes \<Rightarrow> Inr (tl s, result @ bytes))
        else
          (let value = push_bit 4 value in
           if ord (CHR ''0'') \<le> ord (cur s) \<and> ord (cur s) \<le> ord (CHR ''9'') then
             opl_parse_escaped_loop len (tl s)
               (value + word_of_int (ord (cur s) - ord (CHR ''0''))) result
           else if ord (CHR ''a'') \<le> ord (cur s) \<and> ord (cur s) \<le> ord (CHR ''f'') then
             opl_parse_escaped_loop len (tl s)
               (value + word_of_int (ord (cur s) - ord (CHR ''a'') + 10)) result
           else if ord (CHR ''A'') \<le> ord (cur s) \<and> ord (cur s) \<le> ord (CHR ''F'') then
             opl_parse_escaped_loop len (tl s)
               (value + word_of_int (ord (cur s) - ord (CHR ''A'') + 10)) result
           else Inl (opl_error ''not a hex char'' s))
      else Inl (opl_error ''hex escape too long'' s))"
  by pat_completeness auto
termination
  by (relation "measure (\<lambda>(len, s, value, result). nat (max_length - len))") auto

declare opl_parse_escaped_loop.simps [simp del]

definition opl_parse_escaped :: "string \<Rightarrow> string \<Rightarrow> opl_exn + (string \<times> string)" where
  "opl_parse_escaped s result = opl_parse_escaped_loop 0 s 0 result"

lemma opl_parse_escaped_loop_shorter:
  "opl_parse_escaped_loop len s value result = Inr (s', result') \<Longrightarrow> length s' < length s"
proof (induction s arbitrary: len "value")
  case Nil
  then show ?case
    by (subst (asm) opl_parse_escaped_loop.simps) (simp add: Let_def cur_def split: if_splits)
next
  case (Cons c s)
  from Cons.prems show ?case
    by (subst (asm) opl_parse_escaped_loop.simps)
      (auto simp: Let_def cur_def split: if_splits sum.splits dest: Cons.IH)
qed

function opl_parse_string :: "string \<Rightarrow> string \<Rightarrow> opl_exn + (string \<times> string)" where
  "opl_parse_string s result =
     (if cur s = CHR 0x00 \<or> cur s = CHR '' '' \<or> cur s = CHR 0x09 \<or> cur s = CHR '',''
         \<or> cur s = CHR ''='' then Inr (s, result)
      else if cur s = CHR ''%'' then
        (case opl_parse_escaped (tl s) result of
           Inl e \<Rightarrow> Inl e
         | Inr (s', result') \<Rightarrow> opl_parse_string s' result')
      else opl_parse_string (tl s) (result @ [cur s]))"
  by pat_completeness auto
termination
proof (relation "measure (\<lambda>(s, result). length s)")
  show "wf (measure (\<lambda>(s, result). length s))" by simp
next
  fix s result :: string and x2 x y
  assume "cur s = CHR ''%''" "opl_parse_escaped (tl s) result = Inr x2" "(x, y) = x2"
  then have "length x < length (tl s)"
    using opl_parse_escaped_loop_shorter [of 0 "tl s" 0 result x y]
    by (simp add: opl_parse_escaped_def)
  then show "((x, y), s, result) \<in> measure (\<lambda>(s, result). length s)"
    by simp
next
  fix s result :: string
  assume "\<not> (cur s = CHR 0x00 \<or> cur s = CHR '' '' \<or> cur s = CHR 0x09 \<or> cur s = CHR '',''
         \<or> cur s = CHR ''='')"
  then have "s \<noteq> []" by (auto simp: cur_def)
  then show "((tl s, result @ [cur s]), s, result) \<in> measure (\<lambda>(s, result). length s)"
    by simp
qed

declare opl_parse_string.simps [simp del]

text \<open>\<^verbatim>\<open>max_int_len\<close>: "Arbitrary limit how long integers can get".\<close>

definition max_int_len :: int where
  "max_int_len = 16"

text \<open>
  The digit loop of \<^verbatim>\<open>opl_parse_int\<close>. \<^verbatim>\<open>value\<close> is an \<^verbatim>\<open>int64_t\<close>; the
  guard on \<^verbatim>\<open>n\<close> stops the loop before sixteen digits are added, so the value stays
  below \<open>10\<^sup>1\<^sup>5\<close> and is an integer here (see \<open>opl_parse_int_loop_bound\<close>).
\<close>

function opl_parse_int_loop :: "int \<Rightarrow> int \<Rightarrow> string \<Rightarrow> opl_exn + (int \<times> int \<times> string)" where
  "opl_parse_int_loop n value s =
     (if ord (CHR ''0'') \<le> ord (cur s) \<and> ord (cur s) \<le> ord (CHR ''9'') then
        (let n = n - 1 in
         if n = 0 then Inl (opl_error ''integer too long'' s)
         else opl_parse_int_loop n (value * 10 + (ord (cur s) - ord (CHR ''0''))) (tl s))
      else Inr (n, value, s))"
  by pat_completeness auto
termination
  by (relation "measure (\<lambda>(n, value, s). length s)")
    (auto simp: cur_def ord_def split: list.splits)

declare opl_parse_int_loop.simps [simp del]

text \<open>
  \<^verbatim>\<open>opl_parse_int<T>\<close>; the target type enters through its
  \<^verbatim>\<open>std::numeric_limits<T>::min()\<close> and \<^verbatim>\<open>max()\<close>. The final conversion
  \<^verbatim>\<open>T(value)\<close> is the identity on a value inside those limits.
\<close>

definition opl_parse_int :: "int \<Rightarrow> int \<Rightarrow> string \<Rightarrow> opl_exn + (int \<times> string)" where
  "opl_parse_int numeric_limits_min numeric_limits_max s =
     (if cur s = CHR 0x00 then Inl (opl_error ''expected integer'' s)
      else
        (let negative = (cur s = CHR ''-'');
             s = (if negative then tl s else s)
         in case opl_parse_int_loop max_int_len 0 s of
              Inl e \<Rightarrow> Inl e
            | Inr (n, value, s) \<Rightarrow>
                if n = max_int_len then Inl (opl_error ''expected integer'' s)
                else if negative then
                  (let value = - value in
                   if value < numeric_limits_min then Inl (opl_error ''integer too long'' s)
                   else Inr (value, s))
                else if value > numeric_limits_max then Inl (opl_error ''integer too long'' s)
                else Inr (value, s)))"

text \<open>
  Modelled from the spec: object ids are signed 64-bit integers, changeset ids, versions
  and user ids unsigned 32-bit ones (section 3); the types are declared in
  \<^verbatim>\<open>osmium/osm/types.hpp\<close>.
\<close>

definition opl_parse_id :: "string \<Rightarrow> opl_exn + (int \<times> string)" where
  "opl_parse_id s = opl_parse_int (- (2 ^ 63)) (2 ^ 63 - 1) s"

definition opl_parse_changeset_id :: "string \<Rightarrow> opl_exn + (int \<times> string)" where
  "opl_parse_changeset_id s = opl_parse_int 0 (2 ^ 32 - 1) s"

definition opl_parse_version :: "string \<Rightarrow> opl_exn + (int \<times> string)" where
  "opl_parse_version s = opl_parse_int 0 (2 ^ 32 - 1) s"

definition opl_parse_uid :: "string \<Rightarrow> opl_exn + (int \<times> string)" where
  "opl_parse_uid s = opl_parse_int 0 (2 ^ 32 - 1) s"

subsection \<open>Escapes and integer literals, as the specification reads them\<close>

text \<open>
  A hexadecimal digit string and its value, and a decimal digit string and its value,
  defined apart from the parsers.
\<close>

definition is_hex_char :: "char \<Rightarrow> bool" where
  "is_hex_char c =
     ((ord (CHR ''0'') \<le> ord c \<and> ord c \<le> ord (CHR ''9''))
      \<or> (ord (CHR ''a'') \<le> ord c \<and> ord c \<le> ord (CHR ''f''))
      \<or> (ord (CHR ''A'') \<le> ord c \<and> ord c \<le> ord (CHR ''F'')))"

definition hex_digit_value :: "char \<Rightarrow> nat" where
  "hex_digit_value c =
     (if ord c \<le> ord (CHR ''9'') then nat (ord c - ord (CHR ''0''))
      else if ord c \<le> ord (CHR ''F'') then nat (ord c - ord (CHR ''A'') + 10)
      else nat (ord c - ord (CHR ''a'') + 10))"

definition hex_value :: "string \<Rightarrow> nat" where
  "hex_value ds = foldl (\<lambda>v c. 16 * v + hex_digit_value c) 0 ds"

definition is_digit_char :: "char \<Rightarrow> bool" where
  "is_digit_char c = (ord (CHR ''0'') \<le> ord c \<and> ord c \<le> ord (CHR ''9''))"

definition dec_value :: "string \<Rightarrow> int" where
  "dec_value ds = foldl (\<lambda>v c. 10 * v + (ord c - ord (CHR ''0''))) 0 ds"

lemma ord_simps: "ord (CHR ''0'') = 48" "ord (CHR ''9'') = 57" "ord (CHR ''a'') = 97"
  "ord (CHR ''f'') = 102" "ord (CHR ''A'') = 65" "ord (CHR ''F'') = 70" "ord (CHR ''%'') = 37"
  "ord (CHR 0x00) = 0" "ord (CHR ''-'') = 45"
  by (simp_all add: ord_def)

lemma hex_step:
  assumes "is_hex_char c"
  shows "opl_parse_escaped_loop len (c # s) value result =
     (if len + 1 \<le> max_length
      then opl_parse_escaped_loop (len + 1) s (push_bit 4 value + of_nat (hex_digit_value c)) result
      else Inl (opl_error ''hex escape too long'' (c # s)))"
proof -
  have ne: "c \<noteq> CHR 0x00" "c \<noteq> CHR ''%''"
    using assms by (auto simp: is_hex_char_def ord_simps)
  show ?thesis
    using assms ne
    by (subst opl_parse_escaped_loop.simps)
      (auto simp: Let_def cur_def is_hex_char_def hex_digit_value_def ord_simps)
qed

definition hex_word :: "uint32_t \<Rightarrow> string \<Rightarrow> uint32_t" where
  "hex_word value ds = foldl (\<lambda>v c. push_bit 4 v + of_nat (hex_digit_value c)) value ds"

lemma escaped_loop_hex:
  assumes "\<forall>c\<in>set ds. is_hex_char c" "len + int (length ds) < max_length"
  shows "opl_parse_escaped_loop len (ds @ CHR ''%'' # rest) value result =
     (case utf32to8 (hex_word value ds) of
        Inl e \<Rightarrow> Inl e
      | Inr bytes \<Rightarrow> Inr (rest, result @ bytes))"
  using assms
proof (induction ds arbitrary: len "value")
  case Nil
  then show ?case
    by (subst opl_parse_escaped_loop.simps)
      (simp add: Let_def cur_def hex_word_def split: sum.splits)
next
  case (Cons c ds)
  then show ?case
    by (simp add: hex_step hex_word_def)
qed

lemma escaped_loop_too_long:
  assumes "\<forall>c\<in>set ds. is_hex_char c" "len + int (length ds) = max_length"
  shows "opl_parse_escaped_loop len (ds @ rest) value result =
     Inl (opl_error ''hex escape too long'' rest)"
  using assms
proof (induction ds arbitrary: len "value")
  case Nil
  then show ?case
    by (subst opl_parse_escaped_loop.simps) (simp add: Let_def)
next
  case (Cons c ds)
  then show ?case
    by (simp add: hex_step)
qed

lemma escaped_loop_eol:
  assumes "\<forall>c\<in>set ds. is_hex_char c" "len + int (length ds) < max_length"
    "cur rest = CHR 0x00"
  shows "opl_parse_escaped_loop len (ds @ rest) value result = Inl (opl_error ''eol'' rest)"
  using assms
proof (induction ds arbitrary: len "value")
  case Nil
  then show ?case
    by (subst opl_parse_escaped_loop.simps) (simp add: Let_def)
next
  case (Cons c ds)
  then show ?case
    by (simp add: hex_step)
qed

lemma escaped_loop_not_hex:
  assumes "\<forall>c\<in>set ds. is_hex_char c" "len + int (length ds) < max_length"
    "cur rest \<noteq> CHR 0x00" "cur rest \<noteq> CHR ''%''" "\<not> is_hex_char (cur rest)"
  shows "opl_parse_escaped_loop len (ds @ rest) value result =
     Inl (opl_error ''not a hex char'' rest)"
  using assms
proof (induction ds arbitrary: len "value")
  case Nil
  then show ?case
    by (subst opl_parse_escaped_loop.simps) (auto simp add: Let_def is_hex_char_def)
next
  case (Cons c ds)
  then show ?case
    by (simp add: hex_step)
qed

lemma hex_word_of_nat:
  "hex_word (of_nat n) ds = of_nat (foldl (\<lambda>v c. 16 * v + hex_digit_value c) n ds)"
proof (induction ds arbitrary: n)
  case Nil
  then show ?case by (simp add: hex_word_def)
next
  case (Cons c ds)
  have "push_bit 4 (of_nat n :: uint32_t) + of_nat (hex_digit_value c)
          = of_nat (16 * n + hex_digit_value c)"
    by (simp add: push_bit_eq_mult)
  then show ?case
    using Cons.IH [of "16 * n + hex_digit_value c"] by (simp add: hex_word_def)
qed

lemma hex_digit_value_less: "is_hex_char c \<Longrightarrow> hex_digit_value c < 16"
  by (auto simp: is_hex_char_def hex_digit_value_def ord_simps)

lemma hex_fold_less:
  "\<forall>c\<in>set ds. is_hex_char c \<Longrightarrow>
     foldl (\<lambda>v c. 16 * v + hex_digit_value c) n ds < (n + 1) * 16 ^ length ds"
proof (induction ds arbitrary: n)
  case Nil
  then show ?case by simp
next
  case (Cons c ds)
  have "hex_digit_value c < 16" using Cons.prems by (simp add: hex_digit_value_less)
  then have "(16 * n + hex_digit_value c + 1) * 16 ^ length ds \<le> (n + 1) * 16 * 16 ^ length ds"
    by (intro mult_right_mono) auto
  moreover have "foldl (\<lambda>v c. 16 * v + hex_digit_value c) (16 * n + hex_digit_value c) ds
      < (16 * n + hex_digit_value c + 1) * 16 ^ length ds"
    using Cons.IH [of "16 * n + hex_digit_value c"] Cons.prems by simp
  ultimately have "foldl (\<lambda>v c. 16 * v + hex_digit_value c) (16 * n + hex_digit_value c) ds
      < (n + 1) * 16 * 16 ^ length ds"
    by linarith
  then show ?case by (simp add: algebra_simps)
qed

lemma hex_value_less:
  "\<forall>c\<in>set ds. is_hex_char c \<Longrightarrow> hex_value ds < 16 ^ length ds"
  using hex_fold_less [of ds 0] by (simp add: hex_value_def)

lemma unat_hex_word:
  assumes "\<forall>c\<in>set ds. is_hex_char c" "length ds \<le> 8"
  shows "unat (hex_word 0 ds) = hex_value ds"
proof -
  have "hex_value ds < 16 ^ length ds" using assms(1) by (rule hex_value_less)
  also have "(16::nat) ^ length ds \<le> 16 ^ 8"
    using assms(2) by (intro power_increasing) auto
  finally have "hex_value ds < 2 ^ 32" by simp
  moreover have "hex_word 0 ds = of_nat (hex_value ds)"
    using hex_word_of_nat [of 0 ds] by (simp add: hex_value_def)
  ultimately show ?thesis
    by (simp add: unat_of_nat)
qed

lemma opl_parse_escaped_accepts:
  assumes "\<forall>c\<in>set ds. is_hex_char c" "length ds \<le> 7" "is_code_point_valid (hex_value ds)"
  shows "opl_parse_escaped (ds @ CHR ''%'' # rest) result =
           Inr (rest, result @ utf8_encode (hex_value ds))"
proof -
  have "unat (hex_word 0 ds) = hex_value ds"
    using assms by (intro unat_hex_word) auto
  then show ?thesis
    using assms escaped_loop_hex [of ds 0 rest 0 result]
    by (simp add: opl_parse_escaped_def max_length_def utf32to8_def)
qed

lemma opl_parse_escaped_eight:
  assumes "\<forall>c\<in>set ds. is_hex_char c" "length ds = 8"
  shows "opl_parse_escaped (ds @ rest) result = Inl (opl_error ''hex escape too long'' rest)"
  using assms escaped_loop_too_long [of ds 0 rest 0 result]
  by (simp add: opl_parse_escaped_def max_length_def)

lemma opl_parse_string_escape:
  assumes "\<forall>c\<in>set ds. is_hex_char c" "length ds \<le> 7" "is_code_point_valid (hex_value ds)"
  shows "opl_parse_string (CHR ''%'' # ds @ CHR ''%'' # rest) result =
           opl_parse_string rest (result @ utf8_encode (hex_value ds))"
  by (subst opl_parse_string.simps) (simp add: cur_def opl_parse_escaped_accepts [OF assms])

lemma opl_parse_string_escape_eight:
  assumes "\<forall>c\<in>set ds. is_hex_char c" "length ds = 8"
  shows "opl_parse_string (CHR ''%'' # ds @ rest) result =
           Inl (opl_error ''hex escape too long'' rest)"
  by (subst opl_parse_string.simps) (simp add: cur_def opl_parse_escaped_eight [OF assms])

lemma digit_step:
  assumes "is_digit_char c"
  shows "opl_parse_int_loop n value (c # s) =
     (if n - 1 = 0 then Inl (opl_error ''integer too long'' (c # s))
      else opl_parse_int_loop (n - 1) (value * 10 + (ord c - ord (CHR ''0''))) s)"
  using assms
  by (subst opl_parse_int_loop.simps) (simp add: Let_def cur_def is_digit_char_def)

lemma int_loop_stop:
  assumes "\<not> is_digit_char (cur s)"
  shows "opl_parse_int_loop n value s = Inr (n, value, s)"
  using assms
  by (subst opl_parse_int_loop.simps) (auto simp: is_digit_char_def)

lemma int_loop_digits:
  assumes "\<forall>c\<in>set ds. is_digit_char c" "int (length ds) < n" "\<not> is_digit_char (cur rest)"
  shows "opl_parse_int_loop n value (ds @ rest) =
     Inr (n - int (length ds), foldl (\<lambda>v c. 10 * v + (ord c - ord (CHR ''0''))) value ds, rest)"
  using assms
proof (induction ds arbitrary: n "value")
  case Nil
  then show ?case by (simp add: int_loop_stop)
next
  case (Cons c ds)
  then show ?case
    by (simp add: digit_step mult.commute)
qed

lemma int_loop_too_long:
  assumes "\<forall>c\<in>set ds. is_digit_char c" "int (length ds) = n" "ds \<noteq> []"
  shows "opl_parse_int_loop n value (ds @ rest) =
     Inl (opl_error ''integer too long'' (last ds # rest))"
  using assms
proof (induction ds arbitrary: n "value")
  case Nil
  then show ?case by simp
next
  case (Cons c ds)
  show ?case
  proof (cases ds)
    case Nil
    then show ?thesis using Cons.prems by (simp add: digit_step)
  next
    case (Cons d ds')
    then show ?thesis
      using Cons.prems Cons.IH [of "n - 1"] by (simp add: digit_step)
  qed
qed

lemma dec_value_nonneg:
  "\<forall>c\<in>set ds. is_digit_char c \<Longrightarrow> 0 \<le> v \<Longrightarrow>
     0 \<le> foldl (\<lambda>v c. 10 * v + (ord c - ord (CHR ''0''))) v ds"
  by (induction ds arbitrary: v) (auto simp: is_digit_char_def)

lemma dec_fold_less:
  "\<forall>c\<in>set ds. is_digit_char c \<Longrightarrow>
     foldl (\<lambda>v c. 10 * v + (ord c - ord (CHR ''0''))) v ds < (v + 1) * 10 ^ length ds"
proof (induction ds arbitrary: v)
  case Nil
  then show ?case by simp
next
  case (Cons c ds)
  have "ord c - ord (CHR ''0'') < 10" using Cons.prems by (simp add: is_digit_char_def ord_simps)
  then have "(10 * v + (ord c - ord (CHR ''0'')) + 1) * 10 ^ length ds
      \<le> (v + 1) * 10 * 10 ^ length ds"
    by (intro mult_right_mono) auto
  moreover have "foldl (\<lambda>v c. 10 * v + (ord c - ord (CHR ''0''))) (10 * v + (ord c - ord (CHR ''0''))) ds
      < (10 * v + (ord c - ord (CHR ''0'')) + 1) * 10 ^ length ds"
    using Cons.IH [of "10 * v + (ord c - ord (CHR ''0''))"] Cons.prems by simp
  ultimately have "foldl (\<lambda>v c. 10 * v + (ord c - ord (CHR ''0''))) (10 * v + (ord c - ord (CHR ''0''))) ds
      < (v + 1) * 10 * 10 ^ length ds"
    by linarith
  then show ?case by (simp add: algebra_simps)
qed

text \<open>The accumulated value fits an \<^verbatim>\<open>int64_t\<close>: no step of the loop overflows.\<close>

lemma opl_parse_int_loop_bound:
  assumes "\<forall>c\<in>set ds. is_digit_char c" "length ds \<le> 15"
  shows "0 \<le> dec_value ds \<and> dec_value ds < 2 ^ 63"
proof -
  have "dec_value ds < 10 ^ length ds"
    using dec_fold_less [OF assms(1), of 0] by (simp add: dec_value_def)
  also have "(10::int) ^ length ds \<le> 10 ^ 15"
    using assms(2) by (intro power_increasing) auto
  finally have "dec_value ds < 2 ^ 63" by simp
  then show ?thesis
    using dec_value_nonneg [OF assms(1), of 0] by (simp add: dec_value_def)
qed

lemma opl_parse_int_positive:
  assumes "\<forall>c\<in>set ds. is_digit_char c" "ds \<noteq> []" "length ds \<le> 15"
    "\<not> is_digit_char (cur rest)"
  shows "opl_parse_int lo hi (ds @ rest) =
     (if dec_value ds > hi then Inl (opl_error ''integer too long'' rest)
      else Inr (dec_value ds, rest))"
proof -
  obtain c ds' where ds: "ds = c # ds'" using assms(2) by (cases ds) auto
  then have c: "is_digit_char c" using assms(1) by simp
  then have "c \<noteq> CHR 0x00" "c \<noteq> CHR ''-''"
    by (auto simp: is_digit_char_def ord_simps)
  moreover have "opl_parse_int_loop max_int_len 0 (ds @ rest) =
      Inr (max_int_len - int (length ds), dec_value ds, rest)"
    using assms by (simp add: int_loop_digits max_int_len_def dec_value_def)
  ultimately show ?thesis
    using ds by (simp add: opl_parse_int_def cur_def Let_def)
qed

lemma opl_parse_int_negative:
  assumes "\<forall>c\<in>set ds. is_digit_char c" "ds \<noteq> []" "length ds \<le> 15"
    "\<not> is_digit_char (cur rest)"
  shows "opl_parse_int lo hi (CHR ''-'' # ds @ rest) =
     (if - dec_value ds < lo then Inl (opl_error ''integer too long'' rest)
      else Inr (- dec_value ds, rest))"
proof -
  have "opl_parse_int_loop max_int_len 0 (ds @ rest) =
      Inr (max_int_len - int (length ds), dec_value ds, rest)"
    using assms by (simp add: int_loop_digits max_int_len_def dec_value_def)
  then show ?thesis
    using assms(2) by (simp add: opl_parse_int_def cur_def Let_def)
qed

lemma opl_parse_int_sixteen:
  assumes "\<forall>c\<in>set ds. is_digit_char c" "length ds = 16"
  shows "opl_parse_int lo hi (ds @ rest) = Inl (opl_error ''integer too long'' (last ds # rest))"
    and "opl_parse_int lo hi (CHR ''-'' # ds @ rest) =
           Inl (opl_error ''integer too long'' (last ds # rest))"
proof -
  obtain c ds' where ds: "ds = c # ds'" using assms(2) by (cases ds) auto
  then have c: "is_digit_char c" using assms(1) by simp
  then have ne: "c \<noteq> CHR 0x00" "c \<noteq> CHR ''-''"
    by (auto simp: is_digit_char_def ord_simps)
  have loop: "opl_parse_int_loop max_int_len 0 (ds @ rest) =
      Inl (opl_error ''integer too long'' (last ds # rest))"
    using assms ds by (intro int_loop_too_long) (auto simp: max_int_len_def)
  show "opl_parse_int lo hi (ds @ rest) = Inl (opl_error ''integer too long'' (last ds # rest))"
    using loop ne ds by (simp add: opl_parse_int_def cur_def Let_def)
  show "opl_parse_int lo hi (CHR ''-'' # ds @ rest) =
           Inl (opl_error ''integer too long'' (last ds # rest))"
    using loop by (simp add: opl_parse_int_def cur_def Let_def)
qed

lemma opl_parse_int_no_digits:
  assumes "\<not> is_digit_char (cur s)"
  shows "cur s \<noteq> CHR ''-'' \<Longrightarrow> opl_parse_int lo hi s = Inl (opl_error ''expected integer'' s)"
    and "opl_parse_int lo hi (CHR ''-'' # s) = Inl (opl_error ''expected integer'' s)"
  using assms
  by (simp_all add: opl_parse_int_def cur_def Let_def int_loop_stop)

subsection \<open>Percent escapes\<close>

text \<open>
  An escape with a value that is a Unicode scalar and at most seven hexadecimal digits
  (none included) is accepted wherever it stands in a string, and the UTF-8 bytes of that
  value are appended: \<open>opl_parse_string_escape\<close>. A malformed escape raises
  \<^verbatim>\<open>opl_error\<close>: \<open>escaped_loop_eol\<close> and \<open>escaped_loop_not_hex\<close>. An escape
  with eight digits is refused whatever follows: \<open>opl_parse_string_escape_eight\<close>.
\<close>

text \<open>
  C4: an escape of 1 to 8 hexadecimal digits between two percent signs is accepted by
  the string parser and appends the UTF-8 encoding of that value; malformed escapes
  raise \<^verbatim>\<open>opl_error\<close>. The code fails this at eight digits: the loop test
  \<^verbatim>\<open>++length <= max_length\<close> also counts the pass that meets the closing percent
  sign, so of the \<^verbatim>\<open>max_length = 8\<close> passes only seven can read a digit. The escape
  \<^verbatim>\<open>%00000041%\<close> (the letter A with leading zeros) raises "hex escape too long",
  while \<^verbatim>\<open>%0000041%\<close> yields A.
\<close>

theorem opl_parse_string_eight_digits:
  "opl_parse_string ''%00000041%'' [] = Inl (opl_error ''hex escape too long'' ''%'')
   \<and> opl_parse_string ''%0000041%'' [] = Inr ([], ''A'')"
  by (simp add: opl_parse_escaped_def opl_parse_escaped_loop.simps max_length_def cur_def
      ord_def utf32to8_def utf8_encode_def is_code_point_valid_def char_of_eq_iff
      opl_parse_string.simps)

subsection \<open>Integer fields\<close>

text \<open>
  A literal of one to fifteen digits is parsed to its value when that fits the target
  type and raises \<^verbatim>\<open>opl_error\<close> when it does not: \<open>opl_parse_int_positive\<close>,
  \<open>opl_parse_int_negative\<close>. Sixteen digits raise "integer too long" whatever the
  value: \<open>opl_parse_int_sixteen\<close>. A field without digits raises "expected integer":
  \<open>opl_parse_int_no_digits\<close>.
\<close>

text \<open>
  C5: every decimal literal of at most 16 digits whose value fits the target width is
  parsed to that value; overlong or out-of-range literals and fields without digits
  raise \<^verbatim>\<open>opl_error\<close>. The code fails this at sixteen digits: \<^verbatim>\<open>n\<close> starts at
  \<^verbatim>\<open>max_int_len = 16\<close> and \<^verbatim>\<open>--n == 0\<close> is tested before a digit is added, so
  the sixteenth digit raises "integer too long". The id \<^verbatim>\<open>1234567890123456\<close> fits a
  signed 64-bit integer and is refused; with fifteen digits it is accepted.
\<close>

theorem opl_parse_int_sixteen_digits:
  "opl_parse_id ''1234567890123456'' = Inl (opl_error ''integer too long'' ''6'')
   \<and> opl_parse_id ''123456789012345'' = Inr (123456789012345, [])"
  by (simp add: opl_parse_int_def opl_parse_int_loop.simps max_int_len_def cur_def ord_def
      opl_parse_id_def)

section \<open>PBF framing (\<^verbatim>\<open>osmium/io/detail/pbf_input_format.hpp\<close>)\<close>

text \<open>
  Exceptions: \<^verbatim>\<open>osmium::pbf_error\<close> with its message, and any other exception a
  decoder outside this file may raise.
\<close>

datatype exn =
    pbf_error string
  | other_exception string

text \<open>
  A call that reads the input queue returns a value, throws, or waits for ever on an
  empty queue (\<^verbatim>\<open>wait_and_pop\<close> has no timeout).
\<close>

datatype 'a outcome =
    Returns 'a
  | Throws exn
  | Blocks

text \<open>
  The fields of a BlobHeader message in the order \<^verbatim>\<open>next()\<close> yields them. The
  protobuf reader is a library outside the sources at hand; it enters as the function
  \<open>blob_header_fields\<close> of the record below.
\<close>

datatype blob_header_field =
    required_string_type string
  | required_int32_datasize "32 word"
  | other_field

text \<open>
  The collaborators of the parser that live in other files: the protobuf reader, the
  header decoder \<^verbatim>\<open>decode_header\<close>, the data blob decoder \<^verbatim>\<open>PBFDataBlobDecoder\<close>
  (each may throw), the default-constructed header and the empty buffer.
\<close>

record ('h, 'b) decoders =
  blob_header_fields :: "string \<Rightarrow> blob_header_field list"
  decode_header :: "string \<Rightarrow> exn + 'h"
  PBFDataBlobDecoder :: "string \<Rightarrow> nat \<Rightarrow> exn + 'b"
  default_header :: 'h
  empty_buffer :: 'b

text \<open>
  The parser. The input queue holds the chunks the reader thread has pushed, an empty
  chunk marking the end of the input. A future of the result queue is the value or the
  exception it resolves to. \<^verbatim>\<open>m_read_types\<close> is a bit set, 0 for
  \<^verbatim>\<open>osm_entity_bits::nothing\<close>.
\<close>

record ('h, 'b) PBFParser =
  m_input_queue :: "string list"
  m_queue :: "(exn + 'b) list"
  m_header_promise :: "'h option"
  m_read_types :: nat
  m_use_thread_pool :: bool
  m_input_buffer :: string

definition nothing :: nat where
  "nothing = 0"

text \<open>
  Modelled from the spec: the limits of \<^verbatim>\<open>osmium/io/detail/pbf.hpp\<close>, a BlobHeader
  of at most 64 KiB and a blob of at most 32 MiB (section 4.E).
\<close>

definition max_blob_header_size :: nat where
  "max_blob_header_size = 64 * 1024"

definition max_uncompressed_blob_size :: nat where
  "max_uncompressed_blob_size = 32 * 1024 * 1024"

text \<open>The \<^verbatim>\<open>while\<close> loop of \<^verbatim>\<open>read_from_input_queue\<close>.\<close>

function fill_input_buffer ::
  "nat \<Rightarrow> ('h, 'b) PBFParser \<Rightarrow> unit outcome \<times> ('h, 'b) PBFParser" where
  "fill_input_buffer sz p =
     (if length (m_input_buffer p) < sz then
        (case m_input_queue p of
           [] \<Rightarrow> (Blocks, p)
         | new_data # rest \<Rightarrow>
             (let p = p\<lparr> m_input_queue := rest \<rparr> in
              if new_data = [] then (Throws (pbf_error ''truncated data (EOF encountered)''), p)
              else fill_input_buffer sz (p\<lparr> m_input_buffer := m_input_buffer p @ new_data \<rparr>)))
      else (Returns (), p))"
  by pat_completeness auto
termination
  by (relation "measure (\<lambda>(sz, p). length (m_input_queue p))") auto

declare fill_input_buffer.simps [simp del]

text \<open>
  After the loop the first \<^verbatim>\<open>size\<close> bytes of the buffer are returned and the rest
  stays in the buffer.
\<close>

definition read_from_input_queue ::
  "nat \<Rightarrow> ('h, 'b) PBFParser \<Rightarrow> string outcome \<times> ('h, 'b) PBFParser" where
  "read_from_input_queue sz p =
     (case fill_input_buffer sz p of
        (Returns _, p) \<Rightarrow>
          (Returns (take sz (m_input_buffer p)),
           p\<lparr> m_input_buffer := drop sz (m_input_buffer p) \<rparr>)
      | (Throws e, p) \<Rightarrow> (Throws e, p)
      | (Blocks, p) \<Rightarrow> (Blocks, p))"

text \<open>\<^verbatim>\<open>ntohl\<close> of the four bytes read: their big-endian value.\<close>

definition ntohl :: "string \<Rightarrow> nat" where
  "ntohl input_data = foldl (\<lambda>v c. 256 * v + of_char c) 0 (take 4 input_data)"

definition read_blob_header_size_from_file ::
  "('h, 'b) PBFParser \<Rightarrow> nat outcome \<times> ('h, 'b) PBFParser" where
  "read_blob_header_size_from_file p =
     (case read_from_input_queue 4 p of
        (Throws (pbf_error _), p) \<Rightarrow> (Returns 0, p)
      | (Throws e, p) \<Rightarrow> (Throws e, p)
      | (Blocks, p) \<Rightarrow> (Blocks, p)
      | (Returns input_data, p) \<Rightarrow>
          (let sz = ntohl input_data in
           if sz > max_blob_header_size
           then (Throws (pbf_error ''invalid BlobHeader size (> max_blob_header_size)''), p)
           else (Returns sz, p)))"

text \<open>
  \<^verbatim>\<open>strncmp(s1, s2, n)\<close>: \<open>s1\<close> is the NUL-terminated expected type, \<open>s2\<close> the
  bytes of the type field, of which there are \<open>n\<close>. The result is the difference of
  the first pair of bytes that differ, and 0 when \<open>n\<close> bytes agree or both strings end.
\<close>

fun strncmp :: "string \<Rightarrow> string \<Rightarrow> nat \<Rightarrow> int" where
  "strncmp s1 s2 0 = 0"
| "strncmp s1 s2 (Suc n) =
     (if cur s1 \<noteq> cur s2 then of_char (cur s1) - of_char (cur s2)
      else if cur s1 = CHR 0x00 then 0
      else strncmp (tl s1) (tl s2) n)"

text \<open>The conversion of the \<^verbatim>\<open>int32\<close> field to \<^verbatim>\<open>size_t\<close> (64 bits).\<close>

definition size_t_of_int32 :: "32 word \<Rightarrow> nat" where
  "size_t_of_int32 v = nat (sint v mod 2 ^ 64)"

text \<open>
  The field loop of \<^verbatim>\<open>decode_blob_header\<close>: the local variables are the type (data
  and length, initially the null pointer and 0) and the datasize.
\<close>

fun blob_header_loop :: "blob_header_field list \<Rightarrow> string \<times> nat \<Rightarrow> string \<times> nat" where
  "blob_header_loop [] vars = vars"
| "blob_header_loop (required_string_type data # fs) (blob_header_type, blob_header_datasize) =
     blob_header_loop fs (data, blob_header_datasize)"
| "blob_header_loop (required_int32_datasize v # fs) (blob_header_type, blob_header_datasize) =
     blob_header_loop fs (blob_header_type, size_t_of_int32 v)"
| "blob_header_loop (other_field # fs) vars = blob_header_loop fs vars"

definition decode_blob_header :: "blob_header_field list \<Rightarrow> string \<Rightarrow> exn + nat" where
  "decode_blob_header pbf_blob_header expected_type =
     (let (blob_header_type, blob_header_datasize) = blob_header_loop pbf_blob_header ([], 0) in
      if blob_header_datasize = 0
      then Inl (pbf_error ''PBF format error: BlobHeader.datasize missing or zero.'')
      else if strncmp expected_type blob_header_type (length blob_header_type) \<noteq> 0
      then Inl (pbf_error
        ''blob does not have expected type (OSMHeader in first blob, OSMData in following blobs)'')
      else Inr blob_header_datasize)"

definition check_type_and_get_blob_size ::
  "('h, 'b) decoders \<Rightarrow> string \<Rightarrow> ('h, 'b) PBFParser \<Rightarrow> nat outcome \<times> ('h, 'b) PBFParser" where
  "check_type_and_get_blob_size d expected_type p =
     (case read_blob_header_size_from_file p of
        (Returns sz, p) \<Rightarrow>
          if sz = 0 then (Returns 0, p)
          else
            (case read_from_input_queue sz p of
               (Returns blob_header, p) \<Rightarrow>
                 (case decode_blob_header (blob_header_fields d blob_header) expected_type of
                    Inl e \<Rightarrow> (Throws e, p)
                  | Inr datasize \<Rightarrow> (Returns datasize, p))
             | (Throws e, p) \<Rightarrow> (Throws e, p)
             | (Blocks, p) \<Rightarrow> (Blocks, p))
      | (Throws e, p) \<Rightarrow> (Throws e, p)
      | (Blocks, p) \<Rightarrow> (Blocks, p))"

text \<open>
  \<^verbatim>\<open>parse_header_blob\<close>. The promise keeper fulfils the header promise when the
  function is left, with the decoded header or, after an exception, with the default
  one.
\<close>

definition parse_header_blob ::
  "('h, 'b) decoders \<Rightarrow> ('h, 'b) PBFParser \<Rightarrow> unit outcome \<times> ('h, 'b) PBFParser" where
  "parse_header_blob d p =
     (case check_type_and_get_blob_size d ''OSMHeader'' p of
        (Returns sz, p) \<Rightarrow>
          (case read_from_input_queue sz p of
             (Returns data, p) \<Rightarrow>
               (case decode_header d data of
                  Inl e \<Rightarrow> (Throws e, p\<lparr> m_header_promise := Some (default_header d) \<rparr>)
                | Inr header \<Rightarrow> (Returns (), p\<lparr> m_header_promise := Some header \<rparr>))
           | (Throws e, p) \<Rightarrow> (Throws e, p\<lparr> m_header_promise := Some (default_header d) \<rparr>)
           | (Blocks, p) \<Rightarrow> (Blocks, p))
      | (Throws e, p) \<Rightarrow> (Throws e, p\<lparr> m_header_promise := Some (default_header d) \<rparr>)
      | (Blocks, p) \<Rightarrow> (Blocks, p))"

text \<open>\<^verbatim>\<open>std::to_string\<close> of a size.\<close>

fun to_string :: "nat \<Rightarrow> string" where
  "to_string n =
     (if n < 10 then [char_of (48 + n)] else to_string (n div 10) @ [char_of (48 + n mod 10)])"

declare to_string.simps [simp del]

text \<open>The number of input bytes not yet handed out.\<close>

definition bytes_left :: "('h, 'b) PBFParser \<Rightarrow> nat" where
  "bytes_left p = length (m_input_buffer p) + sum_list (map length (m_input_queue p))"

lemma fill_input_buffer_bytes_left:
  "fill_input_buffer sz p = (r, p') \<Longrightarrow> bytes_left p' = bytes_left p"
proof (induction sz p rule: fill_input_buffer.induct)
  case (1 sz p)
  show ?case
  proof (cases "length (m_input_buffer p) < sz")
    case False
    then show ?thesis
      using "1.prems" by (subst (asm) fill_input_buffer.simps) simp
  next
    case True
    show ?thesis
    proof (cases "m_input_queue p")
      case Nil
      then show ?thesis
        using True "1.prems" by (subst (asm) fill_input_buffer.simps) simp
    next
      case (Cons new_data rest)
      show ?thesis
      proof (cases "new_data = []")
        case True
        then show ?thesis
          using \<open>length (m_input_buffer p) < sz\<close> Cons "1.prems"
          by (subst (asm) fill_input_buffer.simps) (auto simp: bytes_left_def)
      next
        case False
        have "fill_input_buffer sz
                (p\<lparr> m_input_queue := rest, m_input_buffer := m_input_buffer p @ new_data \<rparr>)
              = (r, p')"
          using \<open>length (m_input_buffer p) < sz\<close> Cons False "1.prems"
          by (subst (asm) fill_input_buffer.simps) (simp add: Let_def)
        then have "bytes_left p' =
            bytes_left (p\<lparr> m_input_queue := rest, m_input_buffer := m_input_buffer p @ new_data \<rparr>)"
          using "1.IH" [OF \<open>length (m_input_buffer p) < sz\<close> Cons refl False] by simp
        then show ?thesis
          using Cons by (simp add: bytes_left_def)
      qed
    qed
  qed
qed

lemma fill_input_buffer_returns:
  "fill_input_buffer sz p = (Returns u, p') \<Longrightarrow> sz \<le> length (m_input_buffer p')"
proof (induction sz p rule: fill_input_buffer.induct)
  case (1 sz p)
  from "1.prems" show ?case
    by (subst (asm) fill_input_buffer.simps)
      (auto simp: Let_def split: if_splits list.splits dest: "1.IH" [OF _ _ refl])
qed

lemma read_from_input_queue_bytes_left:
  assumes "read_from_input_queue sz p = (Returns x, p')"
  shows "bytes_left p' + sz = bytes_left p"
proof -
  obtain r p1 where f: "fill_input_buffer sz p = (r, p1)" by (cases "fill_input_buffer sz p")
  with assms obtain u where r: "r = Returns u"
    by (cases r) (auto simp: read_from_input_queue_def)
  have "sz \<le> length (m_input_buffer p1)"
    using f r fill_input_buffer_returns by blast
  moreover have "bytes_left p1 = bytes_left p"
    using f by (rule fill_input_buffer_bytes_left)
  moreover have "p' = p1\<lparr> m_input_buffer := drop sz (m_input_buffer p1) \<rparr>"
    using assms f r by (simp add: read_from_input_queue_def)
  ultimately show ?thesis
    by (simp add: bytes_left_def)
qed

lemma read_from_input_queue_bytes_left_le:
  assumes "read_from_input_queue sz p = (r, p')"
  shows "bytes_left p' \<le> bytes_left p"
proof -
  obtain r1 p1 where f: "fill_input_buffer sz p = (r1, p1)" by (cases "fill_input_buffer sz p")
  have "bytes_left p1 = bytes_left p"
    using f by (rule fill_input_buffer_bytes_left)
  then show ?thesis
    using assms f by (cases r1) (auto simp: read_from_input_queue_def bytes_left_def)
qed

lemma check_type_and_get_blob_size_bytes_left:
  assumes "check_type_and_get_blob_size d expected_type p = (Returns sz, p')" "sz \<noteq> 0"
  shows "bytes_left p' < bytes_left p"
proof -
  obtain r1 p1 where a: "read_from_input_queue 4 p = (r1, p1)"
    by (cases "read_from_input_queue 4 p")
  obtain r2 p2 where b: "read_blob_header_size_from_file p = (r2, p2)"
    by (cases "read_blob_header_size_from_file p")
  obtain hs where r2: "r2 = Returns hs" "hs \<noteq> 0"
    using assms b by (cases r2) (auto simp: check_type_and_get_blob_size_def split: if_splits)
  then obtain x where r1: "r1 = Returns x" "p2 = p1"
    using a b
    by (cases r1) (auto simp: read_blob_header_size_from_file_def Let_def
        split: if_splits exn.splits)
  have "bytes_left p1 + 4 = bytes_left p"
    using a r1 read_from_input_queue_bytes_left by blast
  moreover obtain r3 p3 where c: "read_from_input_queue hs p1 = (r3, p3)"
    by (cases "read_from_input_queue hs p1")
  then have "bytes_left p3 \<le> bytes_left p1"
    by (rule read_from_input_queue_bytes_left_le)
  moreover have "p' = p3"
    using assms b c r2 r1
    by (cases r3) (auto simp: check_type_and_get_blob_size_def split: sum.splits)
  ultimately show ?thesis by simp
qed

text \<open>
  The \<^verbatim>\<open>while\<close> loop of \<^verbatim>\<open>operator()\<close>. With the thread pool the future of a blob
  is the result of its decoder task; without it the decoder runs in this thread, and an
  exception leaves the function and breaks the promise already queued. A full result
  queue makes \<^verbatim>\<open>push\<close> wait for the consumer; that wait is not part of the model.
\<close>

function parse_data_blobs ::
  "('h, 'b) decoders \<Rightarrow> ('h, 'b) PBFParser \<Rightarrow> unit outcome \<times> ('h, 'b) PBFParser" where
  "parse_data_blobs d p =
     (case check_type_and_get_blob_size d ''OSMData'' p of
        (Returns sz, p) \<Rightarrow>
          if sz = 0 then (Returns (), p)
          else
            (case read_from_input_queue sz p of
               (Returns input_buffer, p) \<Rightarrow>
                 if length input_buffer > max_uncompressed_blob_size
                 then (Throws (pbf_error (''invalid blob size: ''
                                 @ to_string (length input_buffer))), p)
                 else if m_use_thread_pool p
                 then parse_data_blobs d
                        (p\<lparr> m_queue := m_queue p
                              @ [PBFDataBlobDecoder d input_buffer (m_read_types p)] \<rparr>)
                 else
                   (case PBFDataBlobDecoder d input_buffer (m_read_types p) of
                      Inl e \<Rightarrow>
                        (Throws e,
                         p\<lparr> m_queue := m_queue p @ [Inl (other_exception ''broken promise'')] \<rparr>)
                    | Inr buffer \<Rightarrow>
                        parse_data_blobs d (p\<lparr> m_queue := m_queue p @ [Inr buffer] \<rparr>))
             | (Throws e, p) \<Rightarrow> (Throws e, p)
             | (Blocks, p) \<Rightarrow> (Blocks, p))
      | (Throws e, p) \<Rightarrow> (Throws e, p)
      | (Blocks, p) \<Rightarrow> (Blocks, p))"
  by pat_completeness auto
termination
proof (relation "measure (\<lambda>(d, p). bytes_left p)")
  show "wf (measure (\<lambda>(d, p). bytes_left p))" by simp
next
  fix d :: "('h, 'b) decoders" and p p1 p2 :: "('h, 'b) PBFParser"
    and x1 sz x2 input_buffer
  assume "(x1, p1) = check_type_and_get_blob_size d ''OSMData'' p" "x1 = Returns sz" "sz \<noteq> 0"
    "(x2, p2) = read_from_input_queue sz p1" "x2 = Returns input_buffer"
  then have "bytes_left p1 < bytes_left p" "bytes_left p2 \<le> bytes_left p1"
    using check_type_and_get_blob_size_bytes_left [of d "''OSMData''" p sz p1]
      read_from_input_queue_bytes_left_le [of sz p1 x2 p2]
    by simp_all
  then show "((d, p2\<lparr> m_queue := m_queue p2
                       @ [PBFDataBlobDecoder d input_buffer (m_read_types p2)] \<rparr>), d, p)
      \<in> measure (\<lambda>(d, p). bytes_left p)"
    by (simp add: bytes_left_def)
next
  fix d :: "('h, 'b) decoders" and p p1 p2 :: "('h, 'b) PBFParser"
    and x1 sz x2 input_buffer and buffer :: 'b
  assume "(x1, p1) = check_type_and_get_blob_size d ''OSMData'' p" "x1 = Returns sz" "sz \<noteq> 0"
    "(x2, p2) = read_from_input_queue sz p1" "x2 = Returns input_buffer"
  then have "bytes_left p1 < bytes_left p" "bytes_left p2 \<le> bytes_left p1"
    using check_type_and_get_blob_size_bytes_left [of d "''OSMData''" p sz p1]
      read_from_input_queue_bytes_left_le [of sz p1 x2 p2]
    by simp_all
  then show "((d, p2\<lparr> m_queue := m_queue p2 @ [Inr buffer] \<rparr>), d, p)
      \<in> measure (\<lambda>(d, p). bytes_left p)"
    by (simp add: bytes_left_def)
qed

declare parse_data_blobs.simps [simp del]

text \<open>
  \<^verbatim>\<open>operator()\<close>: the header blob, then, unless no entity type is asked for, the data
  blobs and the empty buffer that marks the end.
\<close>

definition operator_call ::
  "('h, 'b) decoders \<Rightarrow> ('h, 'b) PBFParser \<Rightarrow> bool outcome \<times> ('h, 'b) PBFParser" where
  "operator_call d p =
     (case parse_header_blob d p of
        (Returns _, p) \<Rightarrow>
          if m_read_types p = nothing then (Returns True, p)
          else
            (case parse_data_blobs d p of
               (Returns _, p) \<Rightarrow>
                 (Returns True, p\<lparr> m_queue := m_queue p @ [Inr (empty_buffer d)] \<rparr>)
             | (Throws e, p) \<Rightarrow> (Throws e, p)
             | (Blocks, p) \<Rightarrow> (Blocks, p))
      | (Throws e, p) \<Rightarrow> (Throws e, p)
      | (Blocks, p) \<Rightarrow> (Blocks, p))"

text \<open>
  The constructor of \<^verbatim>\<open>PBFParser\<close>, on the input queue the reader thread fills.
\<close>

definition PBFParser_init :: "string list \<Rightarrow> nat \<Rightarrow> bool \<Rightarrow> ('h, 'b) PBFParser" where
  "PBFParser_init input_queue read_types use_thread_pool =
     \<lparr> m_input_queue = input_queue, m_queue = [], m_header_promise = None,
       m_read_types = read_types, m_use_thread_pool = use_thread_pool, m_input_buffer = [] \<rparr>"

subsection \<open>The byte stream the parser reads\<close>

text \<open>
  A stream is a sequence of blobs, each framed as the four-byte big-endian length of its
  BlobHeader, the BlobHeader and the blob body. The reader thread cuts the stream into
  chunks at arbitrary places and pushes an empty chunk after the last one.
\<close>

definition be32 :: "nat \<Rightarrow> string" where
  "be32 n = [char_of (n div 2 ^ 24), char_of (n div 2 ^ 16), char_of (n div 2 ^ 8), char_of n]"

definition framed :: "string \<Rightarrow> string \<Rightarrow> string" where
  "framed hdr body = be32 (length hdr) @ hdr @ body"

definition stream_of :: "(string \<times> string) list \<Rightarrow> string" where
  "stream_of blobs = concat (map (\<lambda>blob. framed (fst blob) (snd blob)) blobs)"

text \<open>
  The bytes a parser has not yet handed out, up to the end-of-input chunk; a parser is
  \<open>at_input\<close> these bytes when that chunk is still to come. \<open>advanced\<close> relates two
  states that differ in the input queue and the input buffer only.
\<close>

definition input_bytes :: "('h, 'b) PBFParser \<Rightarrow> string" where
  "input_bytes p = m_input_buffer p @ concat (takeWhile (\<lambda>c. c \<noteq> []) (m_input_queue p))"

definition at_input :: "('h, 'b) PBFParser \<Rightarrow> string \<Rightarrow> bool" where
  "at_input p bs = ([] \<in> set (m_input_queue p) \<and> input_bytes p = bs)"

definition advanced :: "('h, 'b) PBFParser \<Rightarrow> ('h, 'b) PBFParser \<Rightarrow> bool" where
  "advanced p p' =
     (m_queue p' = m_queue p \<and> m_header_promise p' = m_header_promise p
      \<and> m_read_types p' = m_read_types p \<and> m_use_thread_pool p' = m_use_thread_pool p)"

text \<open>
  A complete blob for an expected type: its BlobHeader is not empty, within the size limit
  and decoded to the length of the body that follows. A truncated blob: its BlobHeader
  declares more bytes than are left.
\<close>

definition well_formed_blob :: "('h, 'b) decoders \<Rightarrow> string \<Rightarrow> string \<times> string \<Rightarrow> bool" where
  "well_formed_blob d expected_type blob =
     (0 < length (fst blob) \<and> length (fst blob) \<le> max_blob_header_size
      \<and> decode_blob_header (blob_header_fields d (fst blob)) expected_type
          = Inr (length (snd blob)))"

definition truncated_blob ::
  "('h, 'b) decoders \<Rightarrow> string \<Rightarrow> string \<Rightarrow> string \<Rightarrow> bool" where
  "truncated_blob d expected_type hdr partial =
     (0 < length hdr \<and> length hdr \<le> max_blob_header_size
      \<and> (case decode_blob_header (blob_header_fields d hdr) expected_type of
            Inl e \<Rightarrow> False
          | Inr datasize \<Rightarrow> length partial < datasize))"

text \<open>
  The complete blobs before the place of interest: a header blob whose body the header
  decoder accepts, data blobs within the size limit whose decoder, when it runs in the
  parser thread, does not throw, and some entity type asked for.
\<close>

definition data_blobs_ok :: "('h, 'b) decoders \<Rightarrow> nat \<Rightarrow> bool \<Rightarrow> (string \<times> string) list \<Rightarrow> bool" where
  "data_blobs_ok d read_types use_thread_pool blobs =
     list_all (\<lambda>blob. well_formed_blob d ''OSMData'' blob
                 \<and> length (snd blob) \<le> max_uncompressed_blob_size
                 \<and> (use_thread_pool \<or> \<not> isl (PBFDataBlobDecoder d (snd blob) read_types))) blobs"

definition complete_blobs_ok ::
  "('h, 'b) decoders \<Rightarrow> nat \<Rightarrow> bool \<Rightarrow> (string \<times> string) list \<Rightarrow> bool" where
  "complete_blobs_ok d read_types use_thread_pool blobs =
     (case blobs of
        [] \<Rightarrow> True
      | header_blob # data_blobs \<Rightarrow>
          well_formed_blob d ''OSMHeader'' header_blob
          \<and> \<not> isl (decode_header d (snd header_blob))
          \<and> read_types \<noteq> nothing
          \<and> data_blobs_ok d read_types use_thread_pool data_blobs)"

subsection \<open>Decoders for the examples\<close>

text \<open>
  Modelled from the spec: a BlobHeader is the protobuf message
  \<^verbatim>\<open>{1: string type, 3: int32 datasize}\<close> (section 6). The reader below decodes
  varints and length-delimited fields; it stands in for the protobuf library in the
  examples, where a header and a buffer are the undecoded bytes of their blobs.
\<close>

fun get_varint :: "string \<Rightarrow> nat \<times> string" where
  "get_varint [] = (0, [])"
| "get_varint (c # cs) =
     (if of_char c < (128 :: nat) then (of_char c, cs)
      else (let (v, rest) = get_varint cs in (of_char c - 128 + 128 * v, rest)))"

fun pbf_message :: "nat \<Rightarrow> string \<Rightarrow> blob_header_field list" where
  "pbf_message 0 s = []"
| "pbf_message (Suc fuel) s =
     (if s = [] then []
      else
        (let (tag, s) = get_varint s in
         if tag mod 8 = 0 then
           (let (v, s) = get_varint s in
            (if tag div 8 = 3 then required_int32_datasize (of_nat v) else other_field)
              # pbf_message fuel s)
         else if tag mod 8 = 2 then
           (let (n, s) = get_varint s in
            (if tag div 8 = 1 then required_string_type (take n s) else other_field)
              # pbf_message fuel (drop n s))
         else []))"

definition sample_decoders :: "(string, string) decoders" where
  "sample_decoders =
     \<lparr> blob_header_fields = (\<lambda>s. pbf_message (length s) s),
       decode_header = (\<lambda>s. Inr s),
       PBFDataBlobDecoder = (\<lambda>s read_types. Inr s),
       default_header = [],
       empty_buffer = [] \<rparr>"

text \<open>The bytes of a BlobHeader with a type and a datasize below 128.\<close>

definition blob_header :: "string \<Rightarrow> nat \<Rightarrow> string" where
  "blob_header type datasize =
     [CHR 0x0A, char_of (length type)] @ type @ [CHR 0x18, char_of datasize]"

lemmas pbf_eval = operator_call_def parse_header_blob_def parse_data_blobs.simps
  check_type_and_get_blob_size_def read_blob_header_size_from_file_def read_from_input_queue_def
  fill_input_buffer.simps decode_blob_header_def ntohl_def max_blob_header_size_def
  max_uncompressed_blob_size_def nothing_def PBFParser_init_def sample_decoders_def
  framed_def blob_header_def be32_def cur_def Let_def char_of_eq_iff size_t_of_int32_def

lemmas blob_eval = complete_blobs_ok_def data_blobs_ok_def well_formed_blob_def truncated_blob_def
  stream_of_def framed_def blob_header_def be32_def sample_decoders_def decode_blob_header_def
  max_blob_header_size_def max_uncompressed_blob_size_def nothing_def cur_def Let_def
  char_of_eq_iff size_t_of_int32_def

subsection \<open>Reading from the input queue\<close>

lemma advanced_refl: "advanced p p"
  by (simp add: advanced_def)

lemma advanced_trans: "advanced p p1 \<Longrightarrow> advanced p1 p2 \<Longrightarrow> advanced p p2"
  by (simp add: advanced_def)

lemma advanced_fields:
  assumes "advanced p p'"
  shows "m_queue p' = m_queue p" "m_header_promise p' = m_header_promise p"
    "m_read_types p' = m_read_types p" "m_use_thread_pool p' = m_use_thread_pool p"
  using assms by (simp_all add: advanced_def)

lemma advanced_update:
  "advanced p p' \<Longrightarrow> advanced p (p'\<lparr> m_input_buffer := b \<rparr>)"
  "advanced p p' \<Longrightarrow> advanced p (p'\<lparr> m_input_queue := q' \<rparr>)"
  by (simp_all add: advanced_def)

lemma fill_input_buffer_enough:
  assumes "at_input p bs" "sz \<le> length bs"
  shows "\<exists>p'. fill_input_buffer sz p = (Returns (), p') \<and> advanced p p' \<and> at_input p' bs
            \<and> sz \<le> length (m_input_buffer p')"
  using assms
proof (induction sz p rule: fill_input_buffer.induct)
  case (1 sz p)
  show ?case
  proof (cases "length (m_input_buffer p) < sz")
    case False
    then show ?thesis
      using "1.prems" by (subst fill_input_buffer.simps) (simp add: advanced_refl)
  next
    case True
    obtain new_data rest where q: "m_input_queue p = new_data # rest"
      using "1.prems" by (cases "m_input_queue p") (auto simp: at_input_def)
    have ne: "new_data \<noteq> []"
      using True q "1.prems" by (auto simp: at_input_def input_bytes_def)
    let ?p1 = "p\<lparr> m_input_queue := rest, m_input_buffer := m_input_buffer p @ new_data \<rparr>"
    have "at_input ?p1 bs"
      using q ne "1.prems" by (auto simp: at_input_def input_bytes_def)
    then obtain p' where p': "fill_input_buffer sz ?p1 = (Returns (), p')" "advanced ?p1 p'"
        "at_input p' bs" "sz \<le> length (m_input_buffer p')"
      using "1.IH" [OF True q refl ne] "1.prems"(2) by auto
    have "advanced p ?p1"
      by (simp add: advanced_def)
    then have "advanced p p'" using p'(2) by (rule advanced_trans)
    moreover have "fill_input_buffer sz p = (Returns (), p')"
      using True q ne p'(1) by (subst fill_input_buffer.simps) (simp add: Let_def)
    ultimately show ?thesis using p' by blast
  qed
qed

lemma fill_input_buffer_short:
  assumes "at_input p bs" "length bs < sz"
  shows "\<exists>p'. fill_input_buffer sz p
              = (Throws (pbf_error ''truncated data (EOF encountered)''), p')
            \<and> advanced p p' \<and> m_input_buffer p' = bs"
  using assms
proof (induction sz p rule: fill_input_buffer.induct)
  case (1 sz p)
  have short: "length (m_input_buffer p) < sz"
    using "1.prems" by (auto simp: at_input_def input_bytes_def)
  obtain new_data rest where q: "m_input_queue p = new_data # rest"
    using "1.prems" by (cases "m_input_queue p") (auto simp: at_input_def)
  show ?case
  proof (cases "new_data = []")
    case True
    have "fill_input_buffer sz p
        = (Throws (pbf_error ''truncated data (EOF encountered)''), p\<lparr> m_input_queue := rest \<rparr>)"
      using short q True by (subst fill_input_buffer.simps) (simp add: Let_def)
    moreover have "advanced p (p\<lparr> m_input_queue := rest \<rparr>)"
      by (simp add: advanced_def)
    moreover have "m_input_buffer p = bs"
      using q True "1.prems" by (simp add: at_input_def input_bytes_def)
    ultimately show ?thesis by auto
  next
    case False
    let ?p1 = "p\<lparr> m_input_queue := rest, m_input_buffer := m_input_buffer p @ new_data \<rparr>"
    have "at_input ?p1 bs"
      using q False "1.prems" by (auto simp: at_input_def input_bytes_def)
    then obtain p' where p': "fill_input_buffer sz ?p1
          = (Throws (pbf_error ''truncated data (EOF encountered)''), p')"
        "advanced ?p1 p'" "m_input_buffer p' = bs"
      using "1.IH" [OF short q refl False] "1.prems"(2) by auto
    have "advanced p ?p1"
      by (simp add: advanced_def)
    then have "advanced p p'" using p'(2) by (rule advanced_trans)
    moreover have "fill_input_buffer sz p
          = (Throws (pbf_error ''truncated data (EOF encountered)''), p')"
      using short q False p'(1) by (subst fill_input_buffer.simps) (simp add: Let_def)
    ultimately show ?thesis using p' by blast
  qed
qed

lemma read_from_input_queue_enough:
  assumes "at_input p bs" "sz \<le> length bs"
  shows "\<exists>p'. read_from_input_queue sz p = (Returns (take sz bs), p') \<and> advanced p p'
            \<and> at_input p' (drop sz bs)"
proof -
  obtain p1 where p1: "fill_input_buffer sz p = (Returns (), p1)" "advanced p p1"
      "at_input p1 bs" "sz \<le> length (m_input_buffer p1)"
    using fill_input_buffer_enough [OF assms] by auto
  let ?p' = "p1\<lparr> m_input_buffer := drop sz (m_input_buffer p1) \<rparr>"
  have bs: "bs = m_input_buffer p1 @ concat (takeWhile (\<lambda>c. c \<noteq> []) (m_input_queue p1))"
    using p1(3) by (simp add: at_input_def input_bytes_def)
  have "read_from_input_queue sz p = (Returns (take sz (m_input_buffer p1)), ?p')"
    using p1(1) by (simp add: read_from_input_queue_def)
  moreover have "take sz (m_input_buffer p1) = take sz bs"
    using p1(4) bs by simp
  moreover have "advanced p ?p'"
    using p1(2) by (rule advanced_update)
  moreover have "at_input ?p' (drop sz bs)"
    using p1(3,4) bs by (simp add: at_input_def input_bytes_def)
  ultimately show ?thesis by auto
qed

lemma read_from_input_queue_short:
  assumes "at_input p bs" "length bs < sz"
  shows "\<exists>p'. read_from_input_queue sz p
              = (Throws (pbf_error ''truncated data (EOF encountered)''), p')
            \<and> advanced p p' \<and> m_input_buffer p' = bs"
proof -
  obtain p' where "fill_input_buffer sz p
          = (Throws (pbf_error ''truncated data (EOF encountered)''), p')"
      "advanced p p'" "m_input_buffer p' = bs"
    using fill_input_buffer_short [OF assms] by auto
  then show ?thesis
    by (auto simp: read_from_input_queue_def)
qed

lemma ntohl_be32:
  assumes "n < 2 ^ 32"
  shows "ntohl (be32 n @ rest) = n"
proof -
  define x0 x1 x2 x3 m16 m24
    where "x0 = n mod 256" and "x1 = n div 256 mod 256" and "x2 = n div 65536 mod 256"
      and "x3 = n div 16777216 mod 256" and "m16 = n mod 65536" and "m24 = n mod 16777216"
  have a: "m16 = 256 * x1 + x0"
    using mod_mult2_eq [of n 256 256] by (simp add: m16_def x1_def x0_def)
  have b: "m24 = 65536 * x2 + m16"
    using mod_mult2_eq [of n 65536 256] by (simp add: m24_def x2_def m16_def)
  have "n mod 4294967296 = n"
    using assms by simp
  then have c: "n = 16777216 * x3 + m24"
    using mod_mult2_eq [of n 16777216 256] by (simp add: m24_def x3_def)
  have "256 * (256 * (256 * x3 + x2) + x1) + x0 = 16777216 * x3 + (65536 * x2 + (256 * x1 + x0))"
    by simp
  then have "256 * (256 * (256 * x3 + x2) + x1) + x0 = n"
    using a b c by simp
  moreover have "n div 16777216 < 256"
    using assms by (simp add: less_mult_imp_div_less)
  ultimately show ?thesis
    by (simp add: ntohl_def be32_def x0_def x1_def x2_def x3_def)
qed

subsection \<open>Blob headers and the blob loop\<close>

lemma decode_blob_header_nonzero:
  "decode_blob_header fs ty = Inr n \<Longrightarrow> n \<noteq> 0"
  by (auto simp: decode_blob_header_def Let_def split: prod.splits if_splits)

lemma read_blob_header_size_ok:
  assumes "at_input p (be32 n @ rest)" "n \<le> max_blob_header_size"
  shows "\<exists>p'. read_blob_header_size_from_file p = (Returns n, p') \<and> advanced p p'
            \<and> at_input p' rest"
proof -
  have len: "4 \<le> length (be32 n @ rest)" by (simp add: be32_def)
  obtain p' where p': "read_from_input_queue 4 p = (Returns (take 4 (be32 n @ rest)), p')"
      "advanced p p'" "at_input p' (drop 4 (be32 n @ rest))"
    using read_from_input_queue_enough [OF assms(1) len] by auto
  have t: "take 4 (be32 n @ rest) = be32 n" "drop 4 (be32 n @ rest) = rest"
    by (simp_all add: be32_def)
  have "n < 2 ^ 32" using assms(2) by (simp add: max_blob_header_size_def)
  then have "ntohl (be32 n) = n" using ntohl_be32 [of n "[]"] by simp
  then have "read_blob_header_size_from_file p = (Returns n, p')"
    using p'(1) t assms(2) by (simp add: read_blob_header_size_from_file_def Let_def)
  then show ?thesis using p' t by auto
qed

lemma read_blob_header_size_eof:
  assumes "at_input p bs" "length bs < 4"
  shows "\<exists>p'. read_blob_header_size_from_file p = (Returns 0, p') \<and> advanced p p'
            \<and> m_input_buffer p' = bs"
proof -
  obtain p' where "read_from_input_queue 4 p
          = (Throws (pbf_error ''truncated data (EOF encountered)''), p')"
      "advanced p p'" "m_input_buffer p' = bs"
    using read_from_input_queue_short [OF assms] by auto
  then show ?thesis
    by (auto simp: read_blob_header_size_from_file_def)
qed

lemma check_type_and_get_blob_size_ok:
  assumes "at_input p (be32 (length hdr) @ hdr @ rest)" "0 < length hdr"
    "length hdr \<le> max_blob_header_size"
  shows "\<exists>p'. check_type_and_get_blob_size d expected_type p
              = ((case decode_blob_header (blob_header_fields d hdr) expected_type of
                    Inl e \<Rightarrow> Throws e
                  | Inr datasize \<Rightarrow> Returns datasize), p')
            \<and> advanced p p' \<and> at_input p' rest"
proof -
  obtain p1 where p1: "read_blob_header_size_from_file p = (Returns (length hdr), p1)"
      "advanced p p1" "at_input p1 (hdr @ rest)"
    using read_blob_header_size_ok [OF assms(1,3)] by auto
  have "length hdr \<le> length (hdr @ rest)" by simp
  then obtain p2 where p2: "read_from_input_queue (length hdr) p1
          = (Returns (take (length hdr) (hdr @ rest)), p2)"
      "advanced p1 p2" "at_input p2 (drop (length hdr) (hdr @ rest))"
    using read_from_input_queue_enough [OF p1(3)] by blast
  have "check_type_and_get_blob_size d expected_type p
              = ((case decode_blob_header (blob_header_fields d hdr) expected_type of
                    Inl e \<Rightarrow> Throws e
                  | Inr datasize \<Rightarrow> Returns datasize), p2)"
    using p1(1) p2(1) assms(2)
    by (simp add: check_type_and_get_blob_size_def split: sum.splits)
  moreover have "advanced p p2" using p1(2) p2(2) by (rule advanced_trans)
  ultimately show ?thesis using p2(3) by auto
qed

lemma check_type_and_get_blob_size_eof:
  assumes "at_input p bs" "length bs < 4"
  shows "\<exists>p'. check_type_and_get_blob_size d expected_type p = (Returns 0, p')
            \<and> advanced p p' \<and> m_input_buffer p' = bs"
proof -
  obtain p' where "read_blob_header_size_from_file p = (Returns 0, p')" "advanced p p'"
      "m_input_buffer p' = bs"
    using read_blob_header_size_eof [OF assms] by auto
  then show ?thesis
    by (auto simp: check_type_and_get_blob_size_def)
qed

lemma parse_data_blobs_step:
  assumes "at_input p (framed hdr body @ rest)" "well_formed_blob d ''OSMData'' (hdr, body)"
    "length body \<le> max_uncompressed_blob_size"
    "m_use_thread_pool p \<or> \<not> isl (PBFDataBlobDecoder d body (m_read_types p))"
  shows "\<exists>p'. parse_data_blobs d p = parse_data_blobs d p'
            \<and> advanced (p\<lparr> m_queue := m_queue p @ [PBFDataBlobDecoder d body (m_read_types p)] \<rparr>) p'
            \<and> at_input p' rest"
proof -
  have wf: "0 < length hdr" "length hdr \<le> max_blob_header_size"
      "decode_blob_header (blob_header_fields d hdr) ''OSMData'' = Inr (length body)"
    using assms(2) by (simp_all add: well_formed_blob_def)
  have "at_input p (be32 (length hdr) @ hdr @ (body @ rest))"
    using assms(1) by (simp add: framed_def)
  then obtain p1 where p1: "check_type_and_get_blob_size d ''OSMData'' p
          = (Returns (length body), p1)" "advanced p p1" "at_input p1 (body @ rest)"
    using check_type_and_get_blob_size_ok [of p hdr "body @ rest" d "''OSMData''"] wf by auto
  have nz: "length body \<noteq> 0" using wf(3) by (rule decode_blob_header_nonzero)
  have "length body \<le> length (body @ rest)" by simp
  then obtain p2 where p2: "read_from_input_queue (length body) p1
          = (Returns (take (length body) (body @ rest)), p2)"
      "advanced p1 p2" "at_input p2 (drop (length body) (body @ rest))"
    using read_from_input_queue_enough [OF p1(3)] by blast
  have adv: "advanced p p2" using p1(2) p2(2) by (rule advanced_trans)
  let ?f = "PBFDataBlobDecoder d body (m_read_types p)"
  let ?p' = "p2\<lparr> m_queue := m_queue p2 @ [?f] \<rparr>"
  have fields: "m_use_thread_pool p2 = m_use_thread_pool p" "m_read_types p2 = m_read_types p"
      "m_queue p2 = m_queue p"
    using adv by (simp_all add: advanced_def)
  have "parse_data_blobs d p = parse_data_blobs d ?p'"
  proof (cases "m_use_thread_pool p")
    case True
    then show ?thesis
      using p1(1) p2(1) nz assms(3) fields
      by (subst parse_data_blobs.simps) simp
  next
    case False
    then obtain buffer where "?f = Inr buffer"
      using assms(4) by (cases ?f) auto
    then show ?thesis
      using False p1(1) p2(1) nz assms(3) fields
      by (subst parse_data_blobs.simps) simp
  qed
  moreover have "advanced (p\<lparr> m_queue := m_queue p @ [?f] \<rparr>) ?p'"
    using adv by (simp add: advanced_def)
  moreover have "at_input ?p' rest"
    using p2(3) by (simp add: at_input_def input_bytes_def)
  ultimately show ?thesis by blast
qed

lemma parse_data_blobs_prefix:
  assumes "at_input p (stream_of blobs @ rest)"
    "data_blobs_ok d (m_read_types p) (m_use_thread_pool p) blobs"
  shows "\<exists>p'. parse_data_blobs d p = parse_data_blobs d p'
            \<and> advanced (p\<lparr> m_queue := m_queue p
                  @ map (\<lambda>blob. PBFDataBlobDecoder d (snd blob) (m_read_types p)) blobs \<rparr>) p'
            \<and> at_input p' rest"
  using assms
proof (induction blobs arbitrary: p)
  case Nil
  have "advanced (p\<lparr> m_queue := m_queue p \<rparr>) p" by (simp add: advanced_def)
  then show ?case using Nil by (auto simp: stream_of_def)
next
  case (Cons blob blobs)
  obtain hdr body where blob: "blob = (hdr, body)" by (cases blob)
  let ?f = "PBFDataBlobDecoder d body (m_read_types p)"
  have "at_input p (framed hdr body @ (stream_of blobs @ rest))"
    using Cons.prems(1) blob by (simp add: stream_of_def)
  moreover have "well_formed_blob d ''OSMData'' (hdr, body)"
      "length body \<le> max_uncompressed_blob_size"
      "m_use_thread_pool p \<or> \<not> isl ?f"
    using Cons.prems(2) blob by (auto simp: data_blobs_ok_def)
  ultimately obtain p1 where p1: "parse_data_blobs d p = parse_data_blobs d p1"
      "advanced (p\<lparr> m_queue := m_queue p @ [?f] \<rparr>) p1" "at_input p1 (stream_of blobs @ rest)"
    using parse_data_blobs_step by blast
  have f1: "m_read_types p1 = m_read_types p" "m_use_thread_pool p1 = m_use_thread_pool p"
      "m_queue p1 = m_queue p @ [?f]" "m_header_promise p1 = m_header_promise p"
    using p1(2) by (simp_all add: advanced_def)
  have "data_blobs_ok d (m_read_types p1) (m_use_thread_pool p1) blobs"
    using Cons.prems(2) f1 by (simp add: data_blobs_ok_def)
  then obtain p' where p': "parse_data_blobs d p1 = parse_data_blobs d p'"
      "advanced (p1\<lparr> m_queue := m_queue p1
          @ map (\<lambda>blob. PBFDataBlobDecoder d (snd blob) (m_read_types p1)) blobs \<rparr>) p'"
      "at_input p' rest"
    using Cons.IH [OF p1(3)] by blast
  have "advanced (p\<lparr> m_queue := m_queue p
          @ map (\<lambda>blob. PBFDataBlobDecoder d (snd blob) (m_read_types p)) (blob # blobs) \<rparr>) p'"
    using p'(2) f1 blob by (simp add: advanced_def)
  then show ?case using p1(1) p'(1,3) by auto
qed


lemma parse_data_blobs_eof:
  assumes "at_input p bs" "length bs < 4"
  shows "\<exists>p'. parse_data_blobs d p = (Returns (), p') \<and> advanced p p'"
proof -
  obtain p1 where "check_type_and_get_blob_size d ''OSMData'' p = (Returns 0, p1)"
      "advanced p p1"
    using check_type_and_get_blob_size_eof [OF assms] by blast
  then show ?thesis
    by (subst parse_data_blobs.simps) simp
qed

lemma parse_header_blob_ok:
  assumes "at_input p (framed hdr body @ rest)" "well_formed_blob d ''OSMHeader'' (hdr, body)"
    "decode_header d body = Inr header"
  shows "\<exists>p'. parse_header_blob d p = (Returns (), p')
            \<and> advanced (p\<lparr> m_header_promise := Some header \<rparr>) p' \<and> at_input p' rest"
proof -
  have wf: "0 < length hdr" "length hdr \<le> max_blob_header_size"
      "decode_blob_header (blob_header_fields d hdr) ''OSMHeader'' = Inr (length body)"
    using assms(2) by (simp_all add: well_formed_blob_def)
  have "at_input p (be32 (length hdr) @ hdr @ (body @ rest))"
    using assms(1) by (simp add: framed_def)
  then obtain p1 where p1: "check_type_and_get_blob_size d ''OSMHeader'' p
          = (Returns (length body), p1)" "advanced p p1" "at_input p1 (body @ rest)"
    using check_type_and_get_blob_size_ok [of p hdr "body @ rest" d "''OSMHeader''"] wf by auto
  have "length body \<le> length (body @ rest)" by simp
  then obtain p2 where p2: "read_from_input_queue (length body) p1
          = (Returns (take (length body) (body @ rest)), p2)"
      "advanced p1 p2" "at_input p2 (drop (length body) (body @ rest))"
    using read_from_input_queue_enough [OF p1(3)] by blast
  have adv: "advanced p p2" using p1(2) p2(2) by (rule advanced_trans)
  let ?p' = "p2\<lparr> m_header_promise := Some header \<rparr>"
  have "parse_header_blob d p = (Returns (), ?p')"
    using p1(1) p2(1) assms(3) by (simp add: parse_header_blob_def)
  moreover have "advanced (p\<lparr> m_header_promise := Some header \<rparr>) ?p'"
    using adv by (simp add: advanced_def)
  moreover have "at_input ?p' rest"
    using p2(3) by (simp add: at_input_def input_bytes_def)
  ultimately show ?thesis by blast
qed


lemma at_input_init:
  assumes "[] \<in> set input_queue"
  shows "at_input (PBFParser_init input_queue read_types use_thread_pool)
           (concat (takeWhile (\<lambda>c. c \<noteq> []) input_queue))"
  using assms by (simp add: at_input_def input_bytes_def PBFParser_init_def)


lemma operator_call_eof_in_prefix:
  assumes "[] \<in> set input_queue"
    "concat (takeWhile (\<lambda>c. c \<noteq> []) input_queue) = stream_of blobs @ rest"
    "length rest < 4" "blobs \<noteq> []"
    "complete_blobs_ok d read_types use_thread_pool blobs"
  shows "\<exists>p'. operator_call d (PBFParser_init input_queue read_types use_thread_pool)
              = (Returns True, p')
            \<and> m_queue p' = map (\<lambda>blob. PBFDataBlobDecoder d (snd blob) read_types) (tl blobs)
                  @ [Inr (empty_buffer d)]"
proof -
  let ?p = "PBFParser_init input_queue read_types use_thread_pool :: ('a, 'b) PBFParser"
  have init: "m_queue ?p = []" "m_read_types ?p = read_types"
      "m_use_thread_pool ?p = use_thread_pool"
    by (simp_all add: PBFParser_init_def)
  have at: "at_input ?p (stream_of blobs @ rest)"
    using at_input_init [OF assms(1)] assms(2) by simp
  obtain header_blob data_blobs where Cons: "blobs = header_blob # data_blobs"
    using assms(4) by (cases blobs) auto
  obtain hdr0 body0 where hb: "header_blob = (hdr0, body0)" by (cases header_blob)
  have ok: "well_formed_blob d ''OSMHeader'' (hdr0, body0)" "read_types \<noteq> nothing"
      "data_blobs_ok d read_types use_thread_pool data_blobs"
    using assms(5) Cons hb by (simp_all add: complete_blobs_ok_def)
  obtain header where header: "decode_header d body0 = Inr header"
    using assms(5) Cons hb by (cases "decode_header d body0") (auto simp: complete_blobs_ok_def)
  have "at_input ?p (framed hdr0 body0 @ (stream_of data_blobs @ rest))"
    using at Cons hb by (simp add: stream_of_def)
  then obtain p1 where p1: "parse_header_blob d ?p = (Returns (), p1)"
      "advanced (?p\<lparr> m_header_promise := Some header \<rparr>) p1"
      "at_input p1 (stream_of data_blobs @ rest)"
    using parse_header_blob_ok [OF _ ok(1) header] by blast
  have f1: "m_queue p1 = []" "m_read_types p1 = read_types"
      "m_use_thread_pool p1 = use_thread_pool"
    using p1(2) init by (simp_all add: advanced_def)
  have "data_blobs_ok d (m_read_types p1) (m_use_thread_pool p1) data_blobs"
    using ok(3) f1 by simp
  then obtain p2 where p2: "parse_data_blobs d p1 = parse_data_blobs d p2"
      "advanced (p1\<lparr> m_queue := m_queue p1
          @ map (\<lambda>blob. PBFDataBlobDecoder d (snd blob) (m_read_types p1)) data_blobs \<rparr>) p2"
      "at_input p2 rest"
    using parse_data_blobs_prefix [OF p1(3)] by blast
  obtain p3 where p3: "parse_data_blobs d p2 = (Returns (), p3)" "advanced p2 p3"
    using parse_data_blobs_eof [OF p2(3) assms(3)] by blast
  have "m_queue p3 = map (\<lambda>blob. PBFDataBlobDecoder d (snd blob) read_types) data_blobs"
    using p2(2) p3(2) f1 by (simp add: advanced_def)
  moreover have "operator_call d ?p
      = (Returns True, p3\<lparr> m_queue := m_queue p3 @ [Inr (empty_buffer d)] \<rparr>)"
    using p1(1) p2(1) p3(1) f1 ok(2) by (simp add: operator_call_def)
  ultimately show ?thesis using Cons by simp
qed

subsection \<open>The type check of a BlobHeader\<close>

lemma of_char_zero_iff: "(of_char c :: int) = 0 \<longleftrightarrow> c = CHR 0x00"
  using of_char_eq_iff [of c "CHR 0x00", where ?'a = int] by simp

lemma strncmp_zero_iff:
  assumes "CHR 0x00 \<notin> set e"
  shows "strncmp e t (length t) = 0 \<longleftrightarrow>
           (length t \<le> length e \<and> take (length t) e = t)
           \<or> take (Suc (length e)) t = e @ [CHR 0x00]"
  using assms
proof (induction t arbitrary: e)
  case Nil
  then show ?case by simp
next
  case (Cons c t)
  show ?case
  proof (cases e)
    case Nil
    then show ?thesis by (auto simp: cur_def of_char_zero_iff)
  next
    case (Cons a e')
    then have "a \<noteq> CHR 0x00" "CHR 0x00 \<notin> set e'" using Cons.prems by auto
    then show ?thesis
      using Cons Cons.IH [of e'] by (auto simp: cur_def)
  qed
qed

lemma blob_header_loop_fst_snd:
  "blob_header_loop fs vars = (fst (blob_header_loop fs vars), snd (blob_header_loop fs vars))"
  by simp

lemma decode_blob_header_datasize_zero:
  assumes "snd (blob_header_loop fs ([], 0)) = 0"
  shows "decode_blob_header fs expected_type
           = Inl (pbf_error ''PBF format error: BlobHeader.datasize missing or zero.'')"
  using assms by (cases "blob_header_loop fs ([], 0)") (simp add: decode_blob_header_def)

lemma blob_header_loop_no_datasize:
  assumes "\<forall>f\<in>set fs. \<forall>v. f \<noteq> required_int32_datasize v"
  shows "snd (blob_header_loop fs (ty, n)) = n"
  using assms
proof (induction fs arbitrary: ty n)
  case Nil
  then show ?case by simp
next
  case (Cons f fs)
  then show ?case by (cases f) auto
qed

lemma decode_blob_header_accepts_iff:
  assumes "CHR 0x00 \<notin> set expected_type"
  shows "decode_blob_header fs expected_type = Inr n \<longleftrightarrow>
           (let ty = fst (blob_header_loop fs ([], 0)) in
            snd (blob_header_loop fs ([], 0)) = n \<and> n \<noteq> 0
            \<and> ((length ty \<le> length expected_type \<and> take (length ty) expected_type = ty)
                \<or> take (Suc (length expected_type)) ty = expected_type @ [CHR 0x00]))"
  using strncmp_zero_iff [OF assms, of "fst (blob_header_loop fs ([], 0))"]
  by (auto simp: decode_blob_header_def Let_def split: prod.splits)

lemma pbf_blob_type_examples:
  "fst (operator_call sample_decoders
          (PBFParser_init
             [framed (blob_header ''OSMData'' 3) ''abc'' @ framed (blob_header ''OSMData'' 2) ''xy'',
              []] 1 True))
     = Throws (pbf_error
        ''blob does not have expected type (OSMHeader in first blob, OSMData in following blobs)'')"
  "fst (operator_call sample_decoders
          (PBFParser_init
             [framed (blob_header ''OSMHeader'' 3) ''abc'' @ framed (blob_header ''OSMHeader'' 2) ''xy'',
              []] 1 True))
     = Throws (pbf_error
        ''blob does not have expected type (OSMHeader in first blob, OSMData in following blobs)'')"
  "fst (operator_call sample_decoders
          (PBFParser_init
             [framed (blob_header ''OSMHeader'' 3) ''abc'' @ framed (blob_header ''OSMData'' 0) ''xy'',
              []] 1 True))
     = Throws (pbf_error ''PBF format error: BlobHeader.datasize missing or zero.'')"
  by (simp_all add: pbf_eval)

lemma operator_call_empty_stream:
  "fst (operator_call d (PBFParser_init [[]] read_types use_thread_pool)) = Returns True
     \<Longrightarrow> m_queue (snd (operator_call d (PBFParser_init [[]] read_types use_thread_pool))) = []"
  by (simp add: operator_call_def parse_header_blob_def parse_data_blobs.simps
      check_type_and_get_blob_size_def read_blob_header_size_from_file_def
      read_from_input_queue_def fill_input_buffer.simps PBFParser_init_def
      split: sum.splits if_splits)

subsection \<open>The consumer (\<^verbatim>\<open>PBFInputFormat\<close>)\<close>

text \<open>
  \<^verbatim>\<open>std::future<T>\<close>, the type of the handle \<^verbatim>\<open>m_parser_thread\<close> of the parser
  task: it has no shared state (once \<^verbatim>\<open>get()\<close> has been called), or its shared
  state is not ready, or ready with a value or with an exception.
\<close>

datatype 'a future =
    no_state
  | not_ready
  | ready_value 'a
  | ready_exception exn


text \<open>
  Modelled from the spec: \<^verbatim>\<open>osmium::thread::check_for_exception\<close>, declared in
  \<^verbatim>\<open>osmium/thread/util.hpp\<close> (every consumer call checks the status of the framer
  task; if it failed, the caller sees the same error, section 5). On a
  \<^verbatim>\<open>std::future\<close> the check is a \<^verbatim>\<open>get()\<close> of a future that is ready, and
  \<^verbatim>\<open>get()\<close> hands out the value or the exception once: it leaves the future without
  shared state, and a check of such a future does nothing.
\<close>

definition check_for_exception :: "'a future \<Rightarrow> unit outcome \<times> 'a future" where
  "check_for_exception f =
     (case f of
        ready_value v \<Rightarrow> (Returns (), no_state)
      | ready_exception e \<Rightarrow> (Throws e, no_state)
      | not_ready \<Rightarrow> (Returns (), not_ready)
      | no_state \<Rightarrow> (Returns (), no_state))"

text \<open>
  \<^verbatim>\<open>PBFInputFormat\<close> owns the result queue and the header promise and gives the
  parser references to them; they are the fields \<open>m_queue\<close> and \<open>m_header_promise\<close>
  of the parser state, which the format carries along with the future of the parser task.
\<close>

record ('h, 'b) PBFInputFormat =
  parser :: "('h, 'b) PBFParser"
  m_parser_thread :: "bool future"


text \<open>
  \<^verbatim>\<open>PBFInputFormat::header\<close>: check the parser task, then get the future of the
  header promise, which waits for ever when the promise is never fulfilled. The consumer
  calls it once; a second \<^verbatim>\<open>get_future()\<close> on the promise is left out.
\<close>

definition header ::
  "('h, 'b) PBFInputFormat \<Rightarrow> 'h outcome \<times> ('h, 'b) PBFInputFormat" where
  "header fmt =
     (case check_for_exception (m_parser_thread fmt) of
        (r, t) \<Rightarrow>
          ((case r of
              Throws e \<Rightarrow> Throws e
            | Blocks \<Rightarrow> Blocks
            | Returns _ \<Rightarrow>
                (case m_header_promise (parser fmt) of
                   None \<Rightarrow> Blocks
                 | Some h \<Rightarrow> Returns h)),
           fmt\<lparr> m_parser_thread := t \<rparr>))"

text \<open>
  \<^verbatim>\<open>PBFInputFormat::read\<close>. Modelled from the spec: the queue's
  \<^verbatim>\<open>wait_and_pop\<close>, declared in \<^verbatim>\<open>osmium/thread/queue.hpp\<close> (the consumer blocks
  on the next future); on an empty queue it waits for a push, which does not come from a
  parser that has run as far as it goes. \<^verbatim>\<open>read\<close> pops a future first, then checks
  the parser task, and gets the popped future last.
\<close>

definition read ::
  "('h, 'b) PBFInputFormat \<Rightarrow> 'b outcome \<times> ('h, 'b) PBFInputFormat" where
  "read fmt =
     (case m_queue (parser fmt) of
        [] \<Rightarrow> (Blocks, fmt)
      | buffer_future # queue \<Rightarrow>
          (case check_for_exception (m_parser_thread fmt) of
             (r, t) \<Rightarrow>
               ((case r of
                   Throws e \<Rightarrow> Throws e
                 | Blocks \<Rightarrow> Blocks
                 | Returns _ \<Rightarrow>
                     (case buffer_future of
                        Inl e \<Rightarrow> Throws e
                      | Inr buffer \<Rightarrow> Returns buffer)),
                fmt\<lparr> parser := (parser fmt)\<lparr> m_queue := queue \<rparr>, m_parser_thread := t \<rparr>)))"

subsection \<open>Truncated blobs\<close>

text \<open>
  The future of the parser task hands its exception out once: to the first call of
  \<^verbatim>\<open>header()\<close> or \<^verbatim>\<open>read()\<close> that checks it when it is ready. The calls that
  follow find a future without shared state.
\<close>

lemma check_for_exception_once:
  "check_for_exception (snd (check_for_exception (ready_exception e))) = (Returns (), no_state)"
  "check_for_exception (snd (check_for_exception (ready_value v))) = (Returns (), no_state)"
  by (simp_all add: check_for_exception_def)


lemma read_after_check:
  assumes "m_parser_thread fmt = no_state" "m_queue (parser fmt) = Inr buffer # queue"
  shows "fst (read fmt) = Returns buffer"
  using assms by (simp add: read_def check_for_exception_def)

lemma header_parser_failed:
  assumes "m_parser_thread fmt = ready_exception e"
  shows "header fmt = (Throws e, fmt\<lparr> m_parser_thread := no_state \<rparr>)"
  using assms by (simp add: header_def check_for_exception_def)





subsection \<open>Blob types\<close>

text \<open>
  The header blob is checked against "OSMHeader" and every later blob against "OSMData";
  a zero or missing datasize raises \<^verbatim>\<open>pbf_error\<close>
  (\<open>decode_blob_header_datasize_zero\<close>, \<open>blob_header_loop_no_datasize\<close>,
  \<open>pbf_blob_type_examples\<close>). The type test itself accepts more than the expected
  string: \<open>decode_blob_header_accepts_iff\<close>.
\<close>

text \<open>
  C8: a blob whose BlobHeader type is not equal to the type expected at its position
  raises \<^verbatim>\<open>pbf_error\<close>, and so does a datasize that is missing or zero. The code
  fails the first part: \<^verbatim>\<open>strncmp(expected_type, data, length)\<close> compares only as
  many bytes as the type field has, so every prefix of the expected type passes, the
  empty and the missing type included. A data blob of type "OSM" is decoded like one of
  type "OSMData".
\<close>

theorem decode_blob_header_prefix_type:
  "decode_blob_header [required_string_type ''OSM'', required_int32_datasize 2] ''OSMData'' = Inr 2
   \<and> decode_blob_header [required_int32_datasize 2] ''OSMHeader'' = Inr 2
   \<and> fst (operator_call sample_decoders
          (PBFParser_init
             [framed (blob_header ''OSMHeader'' 3) ''abc'' @ framed (blob_header ''OSM'' 2) ''xy'',
              []] 1 True)) = Returns True
   \<and> m_queue (snd (operator_call sample_decoders
          (PBFParser_init
             [framed (blob_header ''OSMHeader'' 3) ''abc'' @ framed (blob_header ''OSM'' 2) ''xy'',
              []] 1 True))) = [Inr ''xy'', Inr []]"
  by (simp add: pbf_eval)

subsection \<open>End of input inside a length prefix\<close>

text \<open>
  C10, as stated: when the input ends while the four-byte length prefix is read, the
  error is caught, the parser ends normally and queues the empty buffer. This fails for
  the prefix of the first blob: the parser goes on to decode an empty header blob, and
  then returns without queuing anything when no entity type is asked for, or reads the
  input queue again after its end.
\<close>

theorem pbf_eof_in_first_prefix_counterexample:
  "fst (operator_call sample_decoders (PBFParser_init [''ab'', []] nothing True)) = Returns True
   \<and> m_queue (snd (operator_call sample_decoders (PBFParser_init [''ab'', []] nothing True))) = []
   \<and> fst (operator_call sample_decoders (PBFParser_init [''ab'', []] 1 True)) = Blocks"
  by (simp add: pbf_eval)

text \<open>
  C10, amended: when the input ends after one or more complete blobs with fewer than four
  bytes left, and some entity type is asked for, \<^verbatim>\<open>read_blob_header_size_from_file\<close>
  returns 0, the parser task returns normally, and the queue holds the futures of the data
  blobs followed by the empty buffer: the truncation is reported as the end of the stream.
\<close>

theorem pbf_eof_in_length_prefix:
  assumes "[] \<in> set input_queue"
    and "concat (takeWhile (\<lambda>c. c \<noteq> []) input_queue) = stream_of blobs @ rest"
    and "length rest < 4"
    and "blobs \<noteq> []"
    and "complete_blobs_ok d read_types use_thread_pool blobs"
  shows "(\<exists>p'. operator_call d (PBFParser_init input_queue read_types use_thread_pool)
              = (Returns True, p')
            \<and> m_queue p' = map (\<lambda>blob. PBFDataBlobDecoder d (snd blob) read_types) (tl blobs)
                  @ [Inr (empty_buffer d)])
       \<and> (\<forall>p :: ('h, 'b) PBFParser.
             at_input p rest \<longrightarrow> fst (read_blob_header_size_from_file p) = Returns 0)"
proof -
  have "fst (read_blob_header_size_from_file p) = Returns 0"
    if "at_input p rest" for p :: "('h, 'b) PBFParser"
    using read_blob_header_size_eof [OF that assms(3)] by auto
  then show ?thesis
    using operator_call_eof_in_prefix [OF assms] by blast
qed

theorem pbf_eof_in_length_prefix_witness:
  "\<exists>p'. operator_call sample_decoders
           (PBFParser_init
              [framed (blob_header ''OSMHeader'' 3) ''abc'',
               framed (blob_header ''OSMData'' 2) ''xy'' @ [CHR 0x00, CHR 0x00],
               [CHR 0x00], []] 1 False)
         = (Returns True, p')
       \<and> m_queue p' = [Inr ''xy'', Inr []]"
proof -
  let ?q = "[framed (blob_header ''OSMHeader'' 3) ''abc'',
             framed (blob_header ''OSMData'' 2) ''xy'' @ [CHR 0x00, CHR 0x00],
             [CHR 0x00], []]"
  let ?blobs = "[(blob_header ''OSMHeader'' 3, ''abc''), (blob_header ''OSMData'' 2, ''xy'')]"
  have 1: "[] \<in> set ?q" by simp
  have 2: "concat (takeWhile (\<lambda>c. c \<noteq> []) ?q) = stream_of ?blobs @ [CHR 0x00, CHR 0x00, CHR 0x00]"
    by (simp add: stream_of_def framed_def blob_header_def be32_def)
  have 3: "length [CHR 0x00, CHR 0x00, CHR 0x00] < 4" by simp
  have 4: "?blobs \<noteq> []" by simp
  have 5: "complete_blobs_ok sample_decoders 1 False ?blobs"
    by (simp add: blob_eval)
  have dec: "PBFDataBlobDecoder sample_decoders = (\<lambda>s r. Inr s)"
      "empty_buffer sample_decoders = []"
    by (simp_all add: sample_decoders_def)
  show ?thesis
    using pbf_eof_in_length_prefix [OF 1 2 3 4 5] by (auto simp: dec)
qed

section \<open>Location indexes\<close>

text \<open>
  Modelled from the spec: the index classes (\<^verbatim>\<open>osmium/index/map/*.hpp\<close>) are not
  among the sources at hand; only their test is. The definitions of this section follow
  section 4.C of the specification. Ids are unsigned 64-bit integers; they are only
  compared and used as positions, so they are natural numbers here.
\<close>

type_synonym unsigned_object_id_type = nat

datatype index_error = not_found unsigned_object_id_type

text \<open>
  Modelled from the spec: the value that marks an absent id is the undefined Location
  (section 3; the test asserts \<^verbatim>\<open>empty_value<Location>() == Location{}\<close>).
\<close>

definition empty_value :: Location where
  "empty_value = undefined_location"

subsection \<open>Dense array\<close>

text \<open>
  Modelled from the spec: a dense back-end is one buffer of Locations indexed by id;
  \<^verbatim>\<open>set\<close> resizes the buffer so that the id is in range, and absent cells hold the
  undefined Location.
\<close>

type_synonym dense_array = "Location list"

definition dense_set :: "dense_array \<Rightarrow> unsigned_object_id_type \<Rightarrow> Location \<Rightarrow> dense_array" where
  "dense_set cells ident v =
     (if ident < length cells then cells
      else cells @ replicate (ident + 1 - length cells) empty_value)[ident := v]"

text \<open>
  Modelled from the spec: the lookup of the dense array; a position outside the buffer
  is an absent cell.
\<close>

definition dense_get_noexcept :: "dense_array \<Rightarrow> unsigned_object_id_type \<Rightarrow> Location" where
  "dense_get_noexcept cells ident = (if ident < length cells then cells ! ident else empty_value)"

subsection \<open>Sparse array\<close>

text \<open>
  Modelled from the spec: a sparse array is a vector of (id, Location) pairs; \<^verbatim>\<open>set\<close>
  appends without ordering; \<^verbatim>\<open>sort\<close> sorts by id, stable on duplicates and keeping
  the last \<^verbatim>\<open>set\<close> of an id; lookup is a binary search.
\<close>

type_synonym sparse_array = "(unsigned_object_id_type \<times> Location) list"

definition sparse_set :: "sparse_array \<Rightarrow> unsigned_object_id_type \<Rightarrow> Location \<Rightarrow> sparse_array" where
  "sparse_set entries ident v = entries @ [(ident, v)]"

text \<open>
  Modelled from the spec: of the entries of one id, which a stable sort leaves in the
  order of their \<^verbatim>\<open>set\<close> calls, the last is kept.
\<close>

fun keep_last :: "sparse_array \<Rightarrow> sparse_array" where
  "keep_last [] = []"
| "keep_last [e] = [e]"
| "keep_last (e # e' # es) =
     (if fst e = fst e' then keep_last (e' # es) else e # keep_last (e' # es))"

text \<open>
  Modelled from the spec: \<^verbatim>\<open>sort\<close> of the sparse array, a stable sort by id that
  keeps the last \<^verbatim>\<open>set\<close> of each id.
\<close>

definition sparse_sort :: "sparse_array \<Rightarrow> sparse_array" where
  "sparse_sort entries = keep_last (sort_key fst entries)"

text \<open>
  Modelled from the spec: the binary search of the sparse array, for the first position
  between \<open>lo\<close> and \<open>hi\<close> whose id is not below the one looked for.
\<close>

function lower_bound :: "sparse_array \<Rightarrow> unsigned_object_id_type \<Rightarrow> nat \<Rightarrow> nat \<Rightarrow> nat" where
  "lower_bound entries ident lo hi =
     (if lo < hi then
        (let mid = (lo + hi) div 2 in
         if fst (entries ! mid) < ident then lower_bound entries ident (mid + 1) hi
         else lower_bound entries ident lo mid)
      else lo)"
  by pat_completeness auto
termination
  by (relation "measure (\<lambda>(entries, ident, lo, hi). hi - lo)") auto

declare lower_bound.simps [simp del]

text \<open>
  Modelled from the spec: the lookup of the sparse array by binary search; the empty
  value when the id is not found.
\<close>

definition sparse_get_noexcept :: "sparse_array \<Rightarrow> unsigned_object_id_type \<Rightarrow> Location" where
  "sparse_get_noexcept entries ident =
     (let i = lower_bound entries ident 0 (length entries) in
      if i < length entries \<and> fst (entries ! i) = ident then snd (entries ! i) else empty_value)"

subsection \<open>Flex\<close>

text \<open>
  Modelled from the spec: a Flex index holds a sparse array or a dense array and starts
  sparse; \<^verbatim>\<open>switch_to_dense\<close> sorts, allocates a dense back-end of size max id + 1,
  copies the values and drops the sparse one; \<^verbatim>\<open>is_dense\<close> tells the mode; lookups
  and updates go to the active back-end. The transition is one-way; on a dense index the
  switch is taken to change nothing.
\<close>

datatype flex = flex_sparse sparse_array | flex_dense dense_array

text \<open>Modelled from the spec: Flex updates go to the active back-end.\<close>

definition flex_set :: "flex \<Rightarrow> unsigned_object_id_type \<Rightarrow> Location \<Rightarrow> flex" where
  "flex_set f ident v =
     (case f of
        flex_sparse entries \<Rightarrow> flex_sparse (sparse_set entries ident v)
      | flex_dense cells \<Rightarrow> flex_dense (dense_set cells ident v))"

text \<open>Modelled from the spec: Flex lookups go to the active back-end.\<close>

definition flex_get_noexcept :: "flex \<Rightarrow> unsigned_object_id_type \<Rightarrow> Location" where
  "flex_get_noexcept f ident =
     (case f of
        flex_sparse entries \<Rightarrow> sparse_get_noexcept entries ident
      | flex_dense cells \<Rightarrow> dense_get_noexcept cells ident)"

text \<open>
  Modelled from the spec: \<^verbatim>\<open>sort\<close> of a Flex index sorts the sparse array and does
  nothing in dense mode.
\<close>

definition flex_sort :: "flex \<Rightarrow> flex" where
  "flex_sort f =
     (case f of
        flex_sparse entries \<Rightarrow> flex_sparse (sparse_sort entries)
      | flex_dense cells \<Rightarrow> flex_dense cells)"

text \<open>
  Modelled from the spec: the dense back-end of \<^verbatim>\<open>switch_to_dense\<close>, of size
  max id + 1 (empty when there is no entry), with the values copied into it.
\<close>

definition dense_of_sparse :: "sparse_array \<Rightarrow> dense_array" where
  "dense_of_sparse entries =
     fold (\<lambda>(ident, v) cells. dense_set cells ident v) entries
       (if entries = [] then [] else replicate (Max (fst ` set entries) + 1) empty_value)"

text \<open>
  Modelled from the spec: \<^verbatim>\<open>switch_to_dense\<close> sorts, builds the dense back-end and
  drops the sparse one.
\<close>

definition switch_to_dense :: "flex \<Rightarrow> flex" where
  "switch_to_dense f =
     (case f of
        flex_sparse entries \<Rightarrow> flex_dense (dense_of_sparse (sparse_sort entries))
      | flex_dense cells \<Rightarrow> flex_dense cells)"

text \<open>Modelled from the spec: \<^verbatim>\<open>is_dense\<close> exposes the current mode.\<close>

definition is_dense :: "flex \<Rightarrow> bool" where
  "is_dense f = (case f of flex_sparse _ \<Rightarrow> False | flex_dense _ \<Rightarrow> True)"

subsection \<open>The common interface\<close>

text \<open>
  Modelled from the spec: the back-ends behind the common interface. The Dummy discards
  writes and all its reads fail; the hash and tree maps are partial maps; the file and
  mmap variants store what the arrays of the same layout store.
\<close>

datatype index =
    Dummy
  | DenseMemArray dense_array
  | SparseMemMap "unsigned_object_id_type \<rightharpoonup> Location"
  | SparseMemArray sparse_array
  | FlexMem flex

text \<open>
  Modelled from the spec: \<^verbatim>\<open>set\<close>. The Dummy discards the write, a map inserts or
  overwrites, the arrays and the Flex index store as defined above.
\<close>

fun set_index :: "index \<Rightarrow> unsigned_object_id_type \<Rightarrow> Location \<Rightarrow> index" where
  "set_index Dummy ident v = Dummy"
| "set_index (DenseMemArray cells) ident v = DenseMemArray (dense_set cells ident v)"
| "set_index (SparseMemMap m) ident v = SparseMemMap (m(ident \<mapsto> v))"
| "set_index (SparseMemArray entries) ident v = SparseMemArray (sparse_set entries ident v)"
| "set_index (FlexMem f) ident v = FlexMem (flex_set f ident v)"

text \<open>
  Modelled from the spec: \<^verbatim>\<open>get_noexcept\<close> returns the undefined Location when the
  id is absent.
\<close>

fun get_noexcept :: "index \<Rightarrow> unsigned_object_id_type \<Rightarrow> Location" where
  "get_noexcept Dummy ident = empty_value"
| "get_noexcept (DenseMemArray cells) ident = dense_get_noexcept cells ident"
| "get_noexcept (SparseMemMap m) ident = (case m ident of None \<Rightarrow> empty_value | Some v \<Rightarrow> v)"
| "get_noexcept (SparseMemArray entries) ident = sparse_get_noexcept entries ident"
| "get_noexcept (FlexMem f) ident = flex_get_noexcept f ident"

text \<open>
  Modelled from the spec: \<^verbatim>\<open>get\<close> returns the location or fails with
  \<^verbatim>\<open>not_found\<close>; the id is absent when its lookup yields the empty value.
\<close>

definition get :: "index \<Rightarrow> unsigned_object_id_type \<Rightarrow> index_error + Location" where
  "get idx ident =
     (let v = get_noexcept idx ident in
      if v = empty_value then Inl (not_found ident) else Inr v)"



text \<open>A sequence of \<^verbatim>\<open>set\<close> calls, on an index and on a Flex index.\<close>

definition set_all :: "index \<Rightarrow> (unsigned_object_id_type \<times> Location) list \<Rightarrow> index" where
  "set_all idx ops = fold (\<lambda>(ident, v) idx. set_index idx ident v) ops idx"

definition flex_set_all :: "flex \<Rightarrow> (unsigned_object_id_type \<times> Location) list \<Rightarrow> flex" where
  "flex_set_all f ops = fold (\<lambda>(ident, v) f. flex_set f ident v) ops f"

text \<open>
  What a sequence of \<^verbatim>\<open>set\<close> calls binds an id to: the location of the last call
  for that id, if there is one.
\<close>

fun last_set ::
  "(unsigned_object_id_type \<times> Location) list \<Rightarrow> unsigned_object_id_type \<Rightarrow> Location option" where
  "last_set [] k = None"
| "last_set ((i, v) # ops) k =
     (case last_set ops k of Some w \<Rightarrow> Some w | None \<Rightarrow> if k = i then Some v else None)"

definition last_write ::
  "(unsigned_object_id_type \<times> Location) list \<Rightarrow> unsigned_object_id_type \<Rightarrow> Location" where
  "last_write ops k = (case last_set ops k of None \<Rightarrow> empty_value | Some v \<Rightarrow> v)"

subsection \<open>Last write wins\<close>

lemma dense_get_set:
  "dense_get_noexcept (dense_set cells i v) j = (if j = i then v else dense_get_noexcept cells j)"
  by (auto simp: dense_get_noexcept_def dense_set_def nth_append nth_list_update)

lemma dense_fold_set:
  "dense_get_noexcept (fold (\<lambda>(i, v) cells. dense_set cells i v) ops cells) j =
     (case last_set ops j of None \<Rightarrow> dense_get_noexcept cells j | Some v \<Rightarrow> v)"
proof (induction ops arbitrary: cells)
  case Nil
  then show ?case by simp
next
  case (Cons e ops)
  obtain i v where e: "e = (i, v)" by (cases e)
  show ?case
    using Cons.IH [of "dense_set cells i v"]
    by (simp add: e dense_get_set split: option.splits)
qed

lemma sparse_fold_set:
  "fold (\<lambda>(i, v) entries. sparse_set entries i v) ops entries = entries @ ops"
  by (induction ops arbitrary: entries) (auto simp: sparse_set_def)

lemma last_set_filter:
  "last_set es k =
     (if filter (\<lambda>e. fst e = k) es = [] then None
      else Some (snd (last (filter (\<lambda>e. fst e = k) es))))"
proof (induction es)
  case Nil
  then show ?case by simp
next
  case (Cons e es)
  obtain i v where e: "e = (i, v)" by (cases e)
  show ?case using Cons by (simp add: e)
qed

lemma last_set_sort_key: "last_set (sort_key fst es) k = last_set es k"
  by (simp only: last_set_filter sort_key_stable)

lemma last_set_None_iff: "last_set es k = None \<longleftrightarrow> k \<notin> fst ` set es"
  by (induction es) (auto split: option.splits)

lemma last_set_distinct:
  "distinct (map fst es) \<Longrightarrow> (k, v) \<in> set es \<Longrightarrow> last_set es k = Some v"
proof (induction es)
  case Nil
  then show ?case by simp
next
  case (Cons e es)
  obtain i w where e: "e = (i, w)" by (cases e)
  show ?case
  proof (cases "(k, v) \<in> set es")
    case True
    then show ?thesis using Cons by (simp add: e)
  next
    case False
    then have "k = i" "v = w" using Cons.prems e by auto
    moreover have "last_set es i = None"
      using Cons.prems(1) e by (simp add: last_set_None_iff)
    ultimately show ?thesis by (simp add: e)
  qed
qed

lemma keep_last_keys: "fst ` set (keep_last es) = fst ` set es"
  by (induction es rule: keep_last.induct) auto

lemma keep_last_sorted:
  "sorted (map fst es) \<Longrightarrow>
     sorted (map fst (keep_last es)) \<and> distinct (map fst (keep_last es))
     \<and> last_set (keep_last es) k = last_set es k"
proof (induction es rule: keep_last.induct)
  case 1
  then show ?case by simp
next
  case (2 e)
  then show ?case by simp
next
  case (3 e e' es)
  obtain i v where e: "e = (i, v)" by (cases e)
  have tl: "sorted (map fst (e' # es))" using "3.prems" by simp
  show ?case
  proof (cases "fst e = fst e'")
    case True
    have ih: "sorted (map fst (keep_last (e' # es)))" "distinct (map fst (keep_last (e' # es)))"
        "last_set (keep_last (e' # es)) k = last_set (e' # es) k"
      using "3.IH"(1) [OF True tl] by auto
    have "last_set (e' # es) i \<noteq> None"
      using True e by (simp add: last_set_None_iff)
    then have "last_set (e # e' # es) k = last_set (e' # es) k"
      unfolding e by (cases "k = i") (auto split: option.splits)
    then show ?thesis using True ih by simp
  next
    case False
    have ih: "sorted (map fst (keep_last (e' # es)))" "distinct (map fst (keep_last (e' # es)))"
        "last_set (keep_last (e' # es)) k = last_set (e' # es) k"
      using "3.IH"(2) [OF False tl] by auto
    have lt: "\<forall>k \<in> fst ` set (e' # es). fst e < k"
    proof
      fix k assume k: "k \<in> fst ` set (e' # es)"
      then have "fst e' \<le> k" using tl by auto
      moreover have "fst e \<le> fst e'" using "3.prems" by simp
      ultimately show "fst e < k" using False by simp
    qed
    then have notin: "fst e \<notin> fst ` set (keep_last (e' # es))"
      by (auto simp only: keep_last_keys)
    have s: "sorted (map fst (e # keep_last (e' # es)))"
      using ih(1) lt keep_last_keys [of "e' # es"] by (auto simp: less_imp_le)
    have d: "distinct (map fst (e # keep_last (e' # es)))"
      using ih(2) notin by simp
    have "last_set (e # keep_last (e' # es)) k = last_set (e # e' # es) k"
      unfolding e using ih(3) by (simp del: keep_last.simps last_set.simps(2) add: last_set.simps(2) [of i v])
    then show ?thesis using False s d by simp
  qed
qed

lemma sparse_sort_spec:
  "sorted (map fst (sparse_sort es))" "distinct (map fst (sparse_sort es))"
  "last_set (sparse_sort es) k = last_set es k"
proof -
  have s: "sorted (map fst (sort_key fst es))" by simp
  show "sorted (map fst (sparse_sort es))" "distinct (map fst (sparse_sort es))"
    using keep_last_sorted [OF s] by (simp_all add: sparse_sort_def)
  show "last_set (sparse_sort es) k = last_set es k"
    using keep_last_sorted [OF s, of k] by (simp add: sparse_sort_def last_set_sort_key)
qed

lemma sorted_keys_nth:
  assumes "sorted (map fst es)" "i \<le> j" "j < length es"
  shows "fst (es ! i) \<le> fst (es ! j)"
  using sorted_nth_mono [OF assms(1), of i j] assms(2,3) by simp

lemma lower_bound_spec:
  assumes "sorted (map fst es)" "lo \<le> hi" "hi \<le> length es"
  shows "lo \<le> lower_bound es k lo hi \<and> lower_bound es k lo hi \<le> hi
         \<and> (\<forall>j. lo \<le> j \<and> j < lower_bound es k lo hi \<longrightarrow> fst (es ! j) < k)
         \<and> (\<forall>j. lower_bound es k lo hi \<le> j \<and> j < hi \<longrightarrow> k \<le> fst (es ! j))"
  using assms
proof (induction es k lo hi rule: lower_bound.induct)
  case (1 es k lo hi)
  show ?case
  proof (cases "lo < hi")
    case False
    then have eq: "lower_bound es k lo hi = lo"
      by (subst lower_bound.simps) simp
    show ?thesis
      unfolding eq using False "1.prems" by auto
  next
    case True
    define mid where "mid = (lo + hi) div 2"
    have mid: "lo \<le> mid" "mid < hi" using True by (auto simp: mid_def)
    show ?thesis
    proof (cases "fst (es ! mid) < k")
      case less: True
      have eq: "lower_bound es k lo hi = lower_bound es k (mid + 1) hi"
        using True less by (subst lower_bound.simps) (simp add: mid_def Let_def)
      have ih: "mid + 1 \<le> lower_bound es k (mid + 1) hi \<and> lower_bound es k (mid + 1) hi \<le> hi
         \<and> (\<forall>j. mid + 1 \<le> j \<and> j < lower_bound es k (mid + 1) hi \<longrightarrow> fst (es ! j) < k)
         \<and> (\<forall>j. lower_bound es k (mid + 1) hi \<le> j \<and> j < hi \<longrightarrow> k \<le> fst (es ! j))"
        using "1.IH"(1) [OF True mid_def less "1.prems"(1)] mid "1.prems"(3) by simp
      have low: "fst (es ! j) < k" if "j \<le> mid" for j
      proof -
        have "fst (es ! j) \<le> fst (es ! mid)"
          using sorted_keys_nth [OF "1.prems"(1) that] mid "1.prems"(3) by simp
        then show ?thesis using less by simp
      qed
      have "\<forall>j. lo \<le> j \<and> j < lower_bound es k (mid + 1) hi \<longrightarrow> fst (es ! j) < k"
      proof (intro allI impI)
        fix j assume j: "lo \<le> j \<and> j < lower_bound es k (mid + 1) hi"
        show "fst (es ! j) < k"
        proof (cases "j \<le> mid")
          case True
          then show ?thesis by (rule low)
        next
          case False
          then show ?thesis using ih j by simp
        qed
      qed
      then show ?thesis
        unfolding eq using ih mid by auto
    next
      case ge: False
      have eq: "lower_bound es k lo hi = lower_bound es k lo mid"
        using True ge by (subst lower_bound.simps) (simp add: mid_def Let_def)
      have ih: "lo \<le> lower_bound es k lo mid \<and> lower_bound es k lo mid \<le> mid
         \<and> (\<forall>j. lo \<le> j \<and> j < lower_bound es k lo mid \<longrightarrow> fst (es ! j) < k)
         \<and> (\<forall>j. lower_bound es k lo mid \<le> j \<and> j < mid \<longrightarrow> k \<le> fst (es ! j))"
        using "1.IH"(2) [OF True mid_def ge "1.prems"(1)] mid "1.prems"(3) by simp
      have high: "k \<le> fst (es ! j)" if "mid \<le> j" "j < hi" for j
      proof -
        have "fst (es ! mid) \<le> fst (es ! j)"
          using sorted_keys_nth [OF "1.prems"(1) that(1)] that(2) "1.prems"(3) by simp
        then show ?thesis using ge by simp
      qed
      have "\<forall>j. lower_bound es k lo mid \<le> j \<and> j < hi \<longrightarrow> k \<le> fst (es ! j)"
      proof (intro allI impI)
        fix j assume j: "lower_bound es k lo mid \<le> j \<and> j < hi"
        show "k \<le> fst (es ! j)"
        proof (cases "mid \<le> j")
          case True
          then show ?thesis using high j by simp
        next
          case False
          then show ?thesis using ih j by simp
        qed
      qed
      then show ?thesis
        unfolding eq using ih mid by auto
    qed
  qed
qed

lemma sparse_get_noexcept_sorted:
  assumes "sorted (map fst es)" "distinct (map fst es)"
  shows "sparse_get_noexcept es k = last_write es k"
proof -
  define i where "i = lower_bound es k 0 (length es)"
  have spec: "i \<le> length es" "\<forall>j. j < i \<longrightarrow> fst (es ! j) < k"
      "\<forall>j. i \<le> j \<and> j < length es \<longrightarrow> k \<le> fst (es ! j)"
    using lower_bound_spec [OF assms(1), of 0 "length es" k] by (auto simp: i_def)
  show ?thesis
  proof (cases "i < length es \<and> fst (es ! i) = k")
    case True
    then have "(k, snd (es ! i)) \<in> set es"
      by (metis nth_mem prod.collapse)
    then have "last_set es k = Some (snd (es ! i))"
      using assms(2) by (rule last_set_distinct [rotated])
    then show ?thesis
      using True by (simp add: sparse_get_noexcept_def last_write_def i_def [symmetric])
  next
    case False
    have "k \<notin> fst ` set es"
    proof
      assume "k \<in> fst ` set es"
      then obtain j where j: "j < length es" "fst (es ! j) = k"
        by (auto simp: in_set_conv_nth)
      then have "i \<le> j" using spec(2) by (meson not_less less_irrefl)
      then have "k \<le> fst (es ! i)" "fst (es ! i) \<le> k" "i < length es"
        using spec(3) j sorted_keys_nth [OF assms(1), of i j] by auto
      then show False using False by simp
    qed
    then have "last_set es k = None" by (simp add: last_set_None_iff)
    then show ?thesis
      using False by (auto simp: sparse_get_noexcept_def last_write_def i_def [symmetric] Let_def)
  qed
qed

lemma sparse_get_noexcept_sort:
  "sparse_get_noexcept (sparse_sort es) k = last_write es k"
  using sparse_get_noexcept_sorted [OF sparse_sort_spec(1,2), of es k]
  by (simp add: last_write_def sparse_sort_spec(3))

lemma dense_get_noexcept_replicate: "dense_get_noexcept (replicate n empty_value) j = empty_value"
  by (simp add: dense_get_noexcept_def)

lemma dense_get_noexcept_Nil: "dense_get_noexcept [] j = empty_value"
  by (simp add: dense_get_noexcept_def)

lemma dense_of_sparse_get:
  "dense_get_noexcept (dense_of_sparse es) k = last_write es k"
proof -
  have "dense_get_noexcept
          (if es = [] then [] else replicate (Max (fst ` set es) + 1) empty_value) k = empty_value"
    by (cases "es = []")
      (simp_all only: refl if_True if_False dense_get_noexcept_replicate dense_get_noexcept_Nil)
  then show ?thesis
    by (simp only: dense_of_sparse_def dense_fold_set last_write_def)
qed

lemma dense_of_sparse_sort_get:
  "dense_get_noexcept (dense_of_sparse (sparse_sort es)) k = last_write es k"
  by (simp add: dense_of_sparse_get last_write_def sparse_sort_spec(3))




lemma flex_set_all_sparse:
  "flex_set_all (flex_sparse entries) ops = flex_sparse (entries @ ops)"
  unfolding flex_set_all_def
  by (induction ops arbitrary: entries) (auto simp: sparse_set_def flex_set_def)



lemma set_all_dummy: "set_all Dummy ops = Dummy"
  unfolding set_all_def by (induction ops) auto


subsection \<open>Completeness of an index\<close>




subsection \<open>Switching a Flex index to dense\<close>

text \<open>
  C6, as stated: for every Flex index filled in sparse mode by a sequence of \<^verbatim>\<open>set\<close>
  calls, after \<^verbatim>\<open>switch_to_dense()\<close> the index is dense, \<^verbatim>\<open>get\<close> returns for
  every id that was set the location it returned before the switch, and
  \<^verbatim>\<open>get_noexcept\<close> returns the undefined Location for an id that was not set. The
  middle part fails when the lookup before the switch is made on entries that are not in
  ascending order of id: after \<^verbatim>\<open>set(12, A); set(3, B)\<close> the binary search does not
  find id 12 and \<^verbatim>\<open>get(12)\<close> fails, while after the switch, which sorts, it returns
  \<open>A\<close>; after \<^verbatim>\<open>set(5, A); set(5, B)\<close> the search finds the first entry, \<open>A\<close>,
  and after the switch the lookup returns the last one, \<open>B\<close>.
\<close>

theorem flex_switch_to_dense_counterexample:
  "get (FlexMem (flex_set_all (flex_sparse [])
         [(12, loc 12000000 45000000), (3, loc 35000000 (-72000000))])) 12
     = Inl (not_found 12)
   \<and> get (FlexMem (switch_to_dense (flex_set_all (flex_sparse [])
         [(12, loc 12000000 45000000), (3, loc 35000000 (-72000000))]))) 12
       = Inr (loc 12000000 45000000)
   \<and> get (FlexMem (flex_set_all (flex_sparse [])
         [(5, loc 12000000 45000000), (5, loc 35000000 (-72000000))])) 5
       = Inr (loc 12000000 45000000)
   \<and> get (FlexMem (switch_to_dense (flex_set_all (flex_sparse [])
         [(5, loc 12000000 45000000), (5, loc 35000000 (-72000000))]))) 5
       = Inr (loc 35000000 (-72000000))"
  by (simp add: flex_set_all_sparse get_def flex_get_noexcept_def switch_to_dense_def
      sparse_get_noexcept_def lower_bound.simps sparse_sort_def dense_of_sparse_def
      dense_get_set empty_value_def undefined_location_def loc_def)

text \<open>
  C6, amended: for every Flex index filled in sparse mode by a sequence of \<^verbatim>\<open>set\<close>
  calls, after \<^verbatim>\<open>switch_to_dense()\<close> the index is dense, \<^verbatim>\<open>get_noexcept\<close>
  returns the last location set for an id that was set and the undefined Location for an
  id that was not set, and \<^verbatim>\<open>get\<close> and \<^verbatim>\<open>get_noexcept\<close> return for every id
  what they returned before the switch when the entries were in ascending order of id
  then: the ids were set in strictly ascending order, as in the test, or \<^verbatim>\<open>sort()\<close>
  was called after the last \<^verbatim>\<open>set\<close> and before the switch.
\<close>

theorem flex_switch_to_dense:
  "is_dense (switch_to_dense (flex_set_all (flex_sparse []) ops))
   \<and> (last_set ops k = Some v \<longrightarrow>
        get_noexcept (FlexMem (switch_to_dense (flex_set_all (flex_sparse []) ops))) k = v)
   \<and> (k \<notin> fst ` set ops \<longrightarrow>
        get_noexcept (FlexMem (switch_to_dense (flex_set_all (flex_sparse []) ops))) k
          = undefined_location)
   \<and> (sorted (map fst ops) \<and> distinct (map fst ops) \<longrightarrow>
        get (FlexMem (switch_to_dense (flex_set_all (flex_sparse []) ops))) k
          = get (FlexMem (flex_set_all (flex_sparse []) ops)) k
        \<and> get_noexcept (FlexMem (switch_to_dense (flex_set_all (flex_sparse []) ops))) k
            = get_noexcept (FlexMem (flex_set_all (flex_sparse []) ops)) k)
   \<and> is_dense (switch_to_dense (flex_sort (flex_set_all (flex_sparse []) ops)))
   \<and> get (FlexMem (switch_to_dense (flex_sort (flex_set_all (flex_sparse []) ops)))) k
       = get (FlexMem (flex_sort (flex_set_all (flex_sparse []) ops))) k
   \<and> get_noexcept (FlexMem (switch_to_dense (flex_sort (flex_set_all (flex_sparse []) ops)))) k
       = get_noexcept (FlexMem (flex_sort (flex_set_all (flex_sparse []) ops))) k
   \<and> (last_set ops k = Some v \<longrightarrow>
        get_noexcept (FlexMem (switch_to_dense (flex_sort (flex_set_all (flex_sparse []) ops)))) k
          = v)
   \<and> (k \<notin> fst ` set ops \<longrightarrow>
        get_noexcept (FlexMem (switch_to_dense (flex_sort (flex_set_all (flex_sparse []) ops)))) k
          = undefined_location)"
proof -
  have a: "flex_get_noexcept (switch_to_dense (flex_set_all (flex_sparse []) ops)) k
      = last_write ops k"
    by (simp add: flex_set_all_sparse switch_to_dense_def flex_get_noexcept_def
        dense_of_sparse_sort_get)
  have b: "flex_get_noexcept (flex_sort (flex_set_all (flex_sparse []) ops)) k
      = last_write ops k"
    by (simp add: flex_set_all_sparse flex_sort_def flex_get_noexcept_def
        sparse_get_noexcept_sort)
  have c: "is_dense (switch_to_dense (flex_set_all (flex_sparse []) ops))"
      "is_dense (switch_to_dense (flex_sort (flex_set_all (flex_sparse []) ops)))"
    by (simp_all add: flex_set_all_sparse switch_to_dense_def flex_sort_def is_dense_def)
  have d: "flex_get_noexcept (flex_set_all (flex_sparse []) ops) k = last_write ops k"
    if "sorted (map fst ops) \<and> distinct (map fst ops)"
    using that
    by (simp add: flex_set_all_sparse flex_get_noexcept_def sparse_get_noexcept_sorted)
  have e: "flex_get_noexcept (switch_to_dense (flex_sort (flex_set_all (flex_sparse []) ops))) k
      = last_write ops k"
    by (simp add: flex_set_all_sparse switch_to_dense_def flex_sort_def flex_get_noexcept_def
        dense_of_sparse_sort_get last_write_def sparse_sort_spec(3))
  have "last_set ops k = None" if "k \<notin> fst ` set ops"
    using that by (simp add: last_set_None_iff)
  then show ?thesis
    using c d by (auto simp: get_def a b e last_write_def empty_value_def)
qed

theorem flex_switch_to_dense_witness:
  "is_dense (switch_to_dense (flex_set_all (flex_sparse [])
      [(17, loc 11000000 12000000), (99, loc 22000000 (-94000000))]))
   \<and> get_noexcept (FlexMem (switch_to_dense (flex_set_all (flex_sparse [])
        [(17, loc 11000000 12000000), (99, loc 22000000 (-94000000))]))) 17
       = loc 11000000 12000000
   \<and> get_noexcept (FlexMem (switch_to_dense (flex_set_all (flex_sparse [])
        [(17, loc 11000000 12000000), (99, loc 22000000 (-94000000))]))) 2000000000
       = undefined_location
   \<and> get (FlexMem (switch_to_dense (flex_set_all (flex_sparse [])
        [(17, loc 11000000 12000000), (99, loc 22000000 (-94000000))]))) 99
       = get (FlexMem (flex_set_all (flex_sparse [])
        [(17, loc 11000000 12000000), (99, loc 22000000 (-94000000))])) 99
   \<and> get_noexcept (FlexMem (switch_to_dense (flex_set_all (flex_sparse [])
        [(17, loc 11000000 12000000), (99, loc 22000000 (-94000000))]))) 99
       = get_noexcept (FlexMem (flex_set_all (flex_sparse [])
        [(17, loc 11000000 12000000), (99, loc 22000000 (-94000000))])) 99"
proof -
  let ?ops = "[(17 :: nat, loc 11000000 12000000), (99, loc 22000000 (-94000000))]"
  have 1: "last_set ?ops 17 = Some (loc 11000000 12000000)" by simp
  have 2: "2000000000 \<notin> fst ` set ?ops" by simp
  have 3: "sorted (map fst ?ops) \<and> distinct (map fst ?ops)" by simp
  show ?thesis
    using flex_switch_to_dense [of ?ops 17 "loc 11000000 12000000"]
      flex_switch_to_dense [of ?ops 2000000000] flex_switch_to_dense [of ?ops 99] 1 2 3
    by blast
qed

end
